theory Spec2Isabelle
  imports Main
begin

section \<open>Python text primitives used by ONICS.py\<close>

text \<open>
  Text is modelled as \<open>string\<close>; a \<open>char\<close> stands for a code point below 256.
  \<open>str.splitlines()\<close> cuts at every line boundary Python knows in that range and
  drops the boundary; \<open>\r\n\<close> counts as one boundary. \<open>str.strip()\<close> removes leading
  and trailing white space. \<open>sub in s\<close> is the substring test.
\<close>

definition is_linebreak :: "char \<Rightarrow> bool" where
  "is_linebreak c =
     (c = CHR 0x0A \<or> c = CHR 0x0B \<or> c = CHR 0x0C \<or> c = CHR 0x0D \<or>
      c = CHR 0x1C \<or> c = CHR 0x1D \<or> c = CHR 0x1E \<or> c = CHR 0x85)"

definition is_space :: "char \<Rightarrow> bool" where
  "is_space c =
     (c = CHR 0x09 \<or> c = CHR 0x0A \<or> c = CHR 0x0B \<or> c = CHR 0x0C \<or> c = CHR 0x0D \<or>
      c = CHR 0x1C \<or> c = CHR 0x1D \<or> c = CHR 0x1E \<or> c = CHR 0x1F \<or>
      c = CHR 0x20 \<or> c = CHR 0x85 \<or> c = CHR 0xA0)"

fun splitlines_from :: "string \<Rightarrow> string \<Rightarrow> string list" where
  "splitlines_from cur [] = (if cur = [] then [] else [cur])"
| "splitlines_from cur (c # cs) =
     (if c = CHR 0x0D then
        (case cs of
           [] \<Rightarrow> [cur]
         | d # ds \<Rightarrow> if d = CHR 0x0A then cur # splitlines_from [] ds
                    else cur # splitlines_from [] (d # ds))
      else if is_linebreak c then cur # splitlines_from [] cs
      else splitlines_from (cur @ [c]) cs)"

definition splitlines :: "string \<Rightarrow> string list" where
  "splitlines s = splitlines_from [] s"

definition strip :: "string \<Rightarrow> string" where
  "strip s = rev (dropWhile is_space (rev (dropWhile is_space s)))"

fun startswith :: "string \<Rightarrow> string \<Rightarrow> bool" where
  "startswith [] s = True"
| "startswith (p # ps) [] = False"
| "startswith (p # ps) (c # cs) = (p = c \<and> startswith ps cs)"

fun py_in :: "string \<Rightarrow> string \<Rightarrow> bool" where
  "py_in sub [] = (sub = [])"
| "py_in sub (c # cs) = (startswith sub (c # cs) \<or> py_in sub cs)"


section \<open>External processes, exceptions and effects\<close>

text \<open>
  \<open>subprocess.run\<close> either cannot start the program (Python raises an \<open>OSError\<close>,
  for instance \<open>FileNotFoundError\<close>) or the program runs and exits with a return code
  and its captured standard output. \<open>CalledProcessError\<close> is raised only when the call
  passes \<open>check=True\<close> and the return code is not zero.
\<close>

datatype proc_outcome = CannotInvoke | Exited int string

datatype exn = OSError | CalledProcessError int | NameError

datatype effect =
    Exec "string list"
  | LogError string exn
  | LogWarning string
  | Print string
  | Sleep nat

definition subprocess_run :: "bool \<Rightarrow> proc_outcome \<Rightarrow> exn + (int \<times> string)" where
  "subprocess_run check r =
     (case r of
        CannotInvoke \<Rightarrow> Inl OSError
      | Exited rc out \<Rightarrow>
          if check \<and> rc \<noteq> 0 then Inl (CalledProcessError rc) else Inr (rc, out))"

definition connection_in_port :: string where "connection_in_port = ''127.0.0.1:14550''"
definition connection_in_baud :: string where "connection_in_baud = ''921600''"
definition connection_out_p01 :: string where "connection_out_p01 = ''127.0.0.1:14540''"
definition connection_out_p02 :: string where "connection_out_p02 = ''127.0.0.1:14560''"
definition connection_out_p03 :: string where "connection_out_p03 = ''/dev/ttyUSB0''"

definition rs_enumerate_devices :: "string list" where
  "rs_enumerate_devices = [''rs-enumerate-devices'']"


section \<open>Device Prober: \<open>is_device_connected\<close> and \<open>enumerate_devices\<close>\<close>

text \<open>The \<open>for line in lines\<close> loop of \<open>is_device_connected\<close>, with its early return.\<close>

fun scan_lines :: "string \<Rightarrow> string list \<Rightarrow> bool" where
  "scan_lines device_prefix [] = False"
| "scan_lines device_prefix (line # lines) =
     (if py_in device_prefix line then True else scan_lines device_prefix lines)"

text \<open>
  \<open>is_device_connected\<close> as a function of what its single call of the enumeration tool
  does. The call has no \<open>check=True\<close>; the handler catches \<open>CalledProcessError\<close> only, and
  any other exception leaves the function. The result is the returned value or the
  escaping exception, with the effects of the call in program order.
\<close>

definition is_device_connected :: "string \<Rightarrow> proc_outcome \<Rightarrow> (exn + bool) \<times> effect list" where
  "is_device_connected device_prefix r =
     (case subprocess_run False r of
        Inr (rc, out) \<Rightarrow>
          (Inr (scan_lines device_prefix (splitlines out)), [Exec rs_enumerate_devices])
      | Inl (CalledProcessError rc) \<Rightarrow>
          (Inr False,
           [Exec rs_enumerate_devices,
            LogError ''Error checking for RealSense devices: %s'' (CalledProcessError rc)])
      | Inl e \<Rightarrow> (Inl e, [Exec rs_enumerate_devices]))"

definition relevant_devices :: "string list" where
  "relevant_devices = [''T265'', ''D4'']"

text \<open>The inner loop of \<open>enumerate_devices\<close>: append the stripped line at the first
  prefix that occurs in it, then \<open>break\<close>.\<close>

fun match_prefixes :: "string list \<Rightarrow> string \<Rightarrow> string list \<Rightarrow> string list" where
  "match_prefixes [] line detected_devices = detected_devices"
| "match_prefixes (device_prefix # rest) line detected_devices =
     (if py_in device_prefix line then detected_devices @ [strip line]
      else match_prefixes rest line detected_devices)"

text \<open>The outer loop over the lines of the output.\<close>

fun collect_devices :: "string list \<Rightarrow> string list \<Rightarrow> string list" where
  "collect_devices [] detected_devices = detected_devices"
| "collect_devices (line # lines) detected_devices =
     collect_devices lines (match_prefixes relevant_devices line detected_devices)"

definition report :: "string list \<Rightarrow> effect list" where
  "report detected_devices =
     (if detected_devices \<noteq> [] then
        Print ''Detected RealSense Devices:'' # map Print detected_devices
      else [Print ''No relevant RealSense devices detected.''])"

definition enumerate_devices :: "proc_outcome \<Rightarrow> (exn + unit) \<times> effect list" where
  "enumerate_devices r =
     (case subprocess_run False r of
        Inr (rc, out) \<Rightarrow>
          (Inr (), Exec rs_enumerate_devices # report (collect_devices (splitlines out) []))
      | Inl (CalledProcessError rc) \<Rightarrow>
          (Inr (),
           [Exec rs_enumerate_devices,
            LogError ''Error enumerating RealSense devices: %s'' (CalledProcessError rc)]
           @ report [])
      | Inl e \<Rightarrow> (Inl e, [Exec rs_enumerate_devices]))"


section \<open>Worker Units\<close>

text \<open>
  The two hardware-gated workers \<open>run_t265\<close> and \<open>run_d4xx\<close> are the same loop over
  different constants: the probed prefix, the launched script, the two log messages and
  the global flag. \<open>run_sensor T265\<close> is \<open>run_t265\<close>, \<open>run_sensor D4XX\<close> is \<open>run_d4xx\<close>.
\<close>

datatype sensor = T265 | D4XX

definition device_prefix :: "sensor \<Rightarrow> string" where
  "device_prefix x = (case x of T265 \<Rightarrow> ''T265'' | D4XX \<Rightarrow> ''D4'')"

definition script_argv :: "sensor \<Rightarrow> string list" where
  "script_argv x =
     (case x of
        T265 \<Rightarrow> [''python3'', ''t265_precland_apriltags.py'', ''--connect='' @ connection_out_p01]
      | D4XX \<Rightarrow> [''python3'', ''d4xx_to_mavlink.py'', ''--connect='' @ connection_out_p02])"

definition missing_warning :: "sensor \<Rightarrow> string" where
  "missing_warning x =
     (case x of
        T265 \<Rightarrow> ''T265 device not detected. Skipping T265 script.''
      | D4XX \<Rightarrow> ''No D4XX device detected. Skipping D4XX script.'')"

definition script_error :: "sensor \<Rightarrow> string" where
  "script_error x = (case x of T265 \<Rightarrow> ''T265 script error: %s'' | D4XX \<Rightarrow> ''D4XX script error: %s'')"

definition flag_name :: "sensor \<Rightarrow> string" where
  "flag_name x = (case x of T265 \<Rightarrow> ''t265_enabled'' | D4XX \<Rightarrow> ''d4xx_enabled'')"

definition mavproxy_argv :: "string list" where
  "mavproxy_argv =
     [''mavproxy.py'', ''--master='' @ connection_in_port, ''--baudrate='' @ connection_in_baud,
      ''--out'', ''udp:'' @ connection_out_p01, ''--out'', ''udp:'' @ connection_out_p02,
      ''--out'', connection_out_p03]"

text \<open>
  A thread is followed from one blocking call to the next. \<open>Entry\<close> is the point before
  the function body (for a sensor worker also the head of its \<open>while\<close> loop), \<open>Probing\<close>
  is inside \<open>is_device_connected\<close> waiting for the enumeration tool, \<open>InCommand\<close> is
  inside \<open>subprocess.run\<close> of the worker's command, \<open>Returned\<close> and \<open>Raised\<close> are the
  two ways the thread's function ends. A step takes \<open>None\<close> when the thread moves on by
  itself and \<open>Some r\<close> when the external program it waits for has ended with outcome
  \<open>r\<close>. Where no step applies the thread stays as it is. What \<open>is_device_connected\<close>
  did, its call of the enumeration tool included, enters the thread's history when the
  probe returns; the launch of the worker's command enters it when the command starts.

  The effects an assignment to a global flag leaves are written \<open>Assign name value\<close>.
\<close>

datatype pc = Entry | Probing | InCommand | Returned | Raised exn

datatype act = Eff effect | Assign string bool

definition mavproxy_create_connection :: "pc \<Rightarrow> proc_outcome option \<Rightarrow> pc \<times> act list" where
  "mavproxy_create_connection p inp =
     (case (p, inp) of
        (Entry, None) \<Rightarrow> (InCommand, [Eff (Exec mavproxy_argv)])
      | (InCommand, Some r) \<Rightarrow>
          (case subprocess_run True r of
             Inr v \<Rightarrow> (Returned, [])
           | Inl (CalledProcessError rc) \<Rightarrow>
               (Returned, [Eff (LogError ''mavproxy error: %s'' (CalledProcessError rc))])
           | Inl e \<Rightarrow> (Raised e, []))
      | _ \<Rightarrow> (p, []))"

text \<open>
  One step of \<open>run_t265\<close> / \<open>run_d4xx\<close>. The second argument is the current value of the
  worker's global flag, the second component of the result its value after the step.
\<close>

definition run_sensor ::
  "sensor \<Rightarrow> bool \<Rightarrow> pc \<Rightarrow> proc_outcome option \<Rightarrow> pc \<times> bool \<times> act list" where
  "run_sensor x enabled p inp =
     (case (p, inp) of
        (Entry, None) \<Rightarrow> (if enabled then (Probing, enabled, []) else (Returned, enabled, []))
      | (Probing, Some r) \<Rightarrow>
          (case is_device_connected (device_prefix x) r of
             (Inr True, effs) \<Rightarrow>
               (InCommand, enabled, map Eff effs @ [Eff (Exec (script_argv x))])
           | (Inr False, effs) \<Rightarrow>
               (Returned, False,
                map Eff effs @ [Eff (LogWarning (missing_warning x)), Assign (flag_name x) False])
           | (Inl e, effs) \<Rightarrow> (Raised e, enabled, map Eff effs))
      | (InCommand, Some r) \<Rightarrow>
          (case subprocess_run True r of
             Inr v \<Rightarrow> (Entry, enabled, [])
           | Inl (CalledProcessError rc) \<Rightarrow>
               (Entry, enabled, [Eff (LogError (script_error x) (CalledProcessError rc))])
           | Inl e \<Rightarrow> (Raised e, enabled, []))
      | _ \<Rightarrow> (p, enabled, []))"


section \<open>Supervisor\<close>

datatype target = Mavproxy_create_connection | Run_sensor sensor | Publish_logs

record thread =
  target :: target
  pc :: pc
  history :: "act list"

text \<open>
  The process state: the two global flags, every thread object created so far (a handle
  is its index), the names \<open>log_thread\<close>, \<open>thread1\<close>, \<open>thread2\<close>, \<open>thread3\<close> of the main
  block (\<open>thread2\<close> and \<open>thread3\<close> are bound only when their \<open>if\<close> ran), what the main
  thread has done and the exception that ended it, if any.
\<close>

record sys =
  t265_enabled :: bool
  d4xx_enabled :: bool
  heap :: "thread list"
  log_thread :: nat
  thread1 :: nat
  thread2 :: "nat option"
  thread3 :: "nat option"
  main_history :: "act list"
  main_exn :: "exn option"

definition enabled_flag :: "sensor \<Rightarrow> sys \<Rightarrow> bool" where
  "enabled_flag x s = (case x of T265 \<Rightarrow> t265_enabled s | D4XX \<Rightarrow> d4xx_enabled s)"

definition set_flag :: "sensor \<Rightarrow> bool \<Rightarrow> sys \<Rightarrow> sys" where
  "set_flag x b s = (case x of T265 \<Rightarrow> s\<lparr>t265_enabled := b\<rparr> | D4XX \<Rightarrow> s\<lparr>d4xx_enabled := b\<rparr>)"

definition pc_alive :: "pc \<Rightarrow> bool" where
  "pc_alive p = (case p of Returned \<Rightarrow> False | Raised e \<Rightarrow> False | _ \<Rightarrow> True)"

definition is_alive :: "sys \<Rightarrow> nat \<Rightarrow> bool" where
  "is_alive s h = (h < length (heap s) \<and> pc_alive (pc (heap s ! h)))"

definition new_thread :: "target \<Rightarrow> thread" where
  "new_thread f = \<lparr>target = f, pc = Entry, history = []\<rparr>"

text \<open>\<open>threading.Thread(target=f).start()\<close>: a new thread object, alive from now on.\<close>

definition start :: "target \<Rightarrow> sys \<Rightarrow> sys" where
  "start f s = s\<lparr>heap := heap s @ [new_thread f]\<rparr>"

text \<open>
  One step of the thread with handle \<open>i\<close>. The body of \<open>publish_logs\<close> never returns
  and touches nothing but the log file and the console; it is modelled on its own below.
\<close>

definition thread_step :: "nat \<Rightarrow> proc_outcome option \<Rightarrow> sys \<Rightarrow> sys" where
  "thread_step i inp s =
     (if i < length (heap s) then
        (let t = heap s ! i in
         case target t of
           Mavproxy_create_connection \<Rightarrow>
             (case mavproxy_create_connection (pc t) inp of
                (p', acts) \<Rightarrow>
                  s\<lparr>heap := (heap s)[i := t\<lparr>pc := p', history := history t @ acts\<rparr>]\<rparr>)
         | Run_sensor x \<Rightarrow>
             (case run_sensor x (enabled_flag x s) (pc t) inp of
                (p', en', acts) \<Rightarrow>
                  set_flag x en'
                    (s\<lparr>heap := (heap s)[i := t\<lparr>pc := p', history := history t @ acts\<rparr>]\<rparr>))
         | Publish_logs \<Rightarrow> s)
      else s)"

text \<open>
  The list \<open>threads\<close> the monitoring loop builds at the top of each pass. Reading an
  unbound \<open>thread2\<close> or \<open>thread3\<close> is a \<open>NameError\<close>.
\<close>

definition monitored :: "sys \<Rightarrow> exn + (nat \<times> target) list" where
  "monitored s =
     (case (if t265_enabled s then
              (case thread2 s of
                 None \<Rightarrow> Inl NameError
               | Some h \<Rightarrow> Inr [(thread1 s, Mavproxy_create_connection), (h, Run_sensor T265)])
            else Inr [(thread1 s, Mavproxy_create_connection)]) of
        Inl e \<Rightarrow> Inl e
      | Inr threads \<Rightarrow>
          (if d4xx_enabled s then
             (case thread3 s of
                None \<Rightarrow> Inl NameError
              | Some h \<Rightarrow> Inr (threads @ [(h, Run_sensor D4XX)]))
           else Inr threads))"

text \<open>
  The \<open>for thread, func in threads\<close> loop. The assignment in its body binds the loop
  variable \<open>thread\<close>; neither the list nor \<open>thread1\<close>, \<open>thread2\<close>, \<open>thread3\<close> changes.
\<close>

fun restart_dead :: "(nat \<times> target) list \<Rightarrow> sys \<Rightarrow> sys" where
  "restart_dead [] s = s"
| "restart_dead ((h, func) # threads) s =
     restart_dead threads (if \<not> is_alive s h then start func s else s)"

text \<open>
  One pass of the \<open>while True\<close> loop of the main block, ending with \<open>time.sleep(1)\<close>.
  A pass is one step of the process: the threads move between passes, not inside one.
  In the program a thread can also move between the building of the list and the
  tests of \<open>is_alive\<close>; a pass here is the schedule in which none does, and the facts
  below about what a pass starts are facts about such passes.
  A main thread that has ended with an exception makes no further pass.
\<close>

definition monitor_cycle :: "sys \<Rightarrow> sys" where
  "monitor_cycle s =
     (case main_exn s of
        Some e \<Rightarrow> s
      | None \<Rightarrow>
          (case monitored s of
             Inl e \<Rightarrow> s\<lparr>main_exn := Some e\<rparr>
           | Inr threads \<Rightarrow>
               (let s' = restart_dead threads s
                in s'\<lparr>main_history := main_history s' @ [Eff (Sleep 1)]\<rparr>)))"

datatype event = Advance nat | Complete nat proc_outcome | MonitorCycle

fun step :: "event \<Rightarrow> sys \<Rightarrow> sys" where
  "step (Advance i) s = thread_step i None s"
| "step (Complete i r) s = thread_step i (Some r) s"
| "step MonitorCycle s = monitor_cycle s"

fun run :: "event list \<Rightarrow> sys \<Rightarrow> sys" where
  "run [] s = s"
| "run (e # es) s = run es (step e s)"


section \<open>Entry Controller\<close>

record args =
  arg_enumerate :: bool
  arg_disable_t265 :: bool
  arg_disable_d4xx :: bool
  arg_sik_only :: bool

text \<open>The flag handling of the main block; both globals start as \<open>True\<close>.\<close>

definition handle_flags :: "args \<Rightarrow> (bool \<times> bool) \<times> act list" where
  "handle_flags a =
     (if arg_sik_only a then
        ((False, False), [Assign ''t265_enabled'' False, Assign ''d4xx_enabled'' False])
      else
        ((\<not> arg_disable_t265 a, \<not> arg_disable_d4xx a),
         (if arg_disable_t265 a then [Assign ''t265_enabled'' False] else []) @
         (if arg_disable_d4xx a then [Assign ''d4xx_enabled'' False] else [])))"

text \<open>
  The main block from the flag handling up to the monitoring loop, as one step: the
  threads it starts take their first steps afterwards.
\<close>

definition startup :: "args \<Rightarrow> sys" where
  "startup a =
     (case handle_flags a of
        ((t265, d4xx), acts) \<Rightarrow>
          (let s0 = \<lparr>t265_enabled = t265, d4xx_enabled = d4xx, heap = [],
                     log_thread = 0, thread1 = 0, thread2 = None, thread3 = None,
                     main_history = acts, main_exn = None\<rparr>;
               s1 = (start Publish_logs s0)\<lparr>log_thread := length (heap s0)\<rparr>;
               s2 = s1\<lparr>main_history := main_history s1 @
                          [Eff (Print ''ONICS - Optical Navigation and Interference Control System is initializing...'')]\<rparr>;
               s3 = (start Mavproxy_create_connection s2)\<lparr>thread1 := length (heap s2)\<rparr>;
               s4 = (if t265_enabled s3
                     then (start (Run_sensor T265) s3)\<lparr>thread2 := Some (length (heap s3))\<rparr>
                     else s3);
               s5 = (if d4xx_enabled s4
                     then (start (Run_sensor D4XX) s4)\<lparr>thread3 := Some (length (heap s4))\<rparr>
                     else s4)
           in s5))"

datatype main_result = Diagnostic "(exn + unit) \<times> effect list" | Supervise sys

text \<open>
  The main block. With \<open>--enumerate\<close> it runs the report and ends; otherwise it starts
  the threads and enters the monitoring loop, whose passes are the \<open>MonitorCycle\<close> events
  applied to the state \<open>Supervise\<close> carries.
\<close>

definition main :: "args \<Rightarrow> proc_outcome \<Rightarrow> main_result" where
  "main a r = (if arg_enumerate a then Diagnostic (enumerate_devices r) else Supervise (startup a))"


section \<open>Status Tail\<close>

text \<open>
  The log file is a text. A producer adds to it with one write, \<open>Write w\<close>; the
  logging handler writes a record as \<open>emit l\<close>, the formatted line and a newline, in a
  single write. The follower reads the file as \<open>open(log_file_path, 'r')\<close> does, with
  universal newlines: \<open>readline\<close> at offset \<open>p\<close> returns the text up to the next
  LF, CR or CR LF with a newline in its place, or what is left of the file when that
  holds no line ending, or the empty string at the end of the file. \<open>publish_logs\<close>
  first opens the file and seeks to its end, then runs its loop; one \<open>Tick\<close> is its
  next step. \<open>one_line l\<close> says that \<open>l\<close> holds no line ending.
\<close>

fun read_to_eol :: "string \<Rightarrow> string \<times> nat" where
  "read_to_eol [] = ([], 0)"
| "read_to_eol (c # cs) =
     (if c = CHR 0x0A then ([CHR 0x0A], 1)
      else if c = CHR 0x0D then
        (case cs of
           [] \<Rightarrow> ([CHR 0x0A], 1)
         | d # ds \<Rightarrow> if d = CHR 0x0A then ([CHR 0x0A], 2) else ([CHR 0x0A], 1))
      else (case read_to_eol cs of (l, n) \<Rightarrow> (c # l, Suc n)))"

definition readline :: "string \<Rightarrow> nat \<Rightarrow> string \<times> nat" where
  "readline file p = (case read_to_eol (drop p file) of (l, n) \<Rightarrow> (l, p + n))"

datatype tail_pc = NotOpened | Following nat

record tail_state =
  logfile :: string
  tail_pc :: tail_pc
  console :: "effect list"

datatype tail_event = Write string | Tick

definition publish_logs :: "tail_state \<Rightarrow> tail_state" where
  "publish_logs st =
     (case tail_pc st of
        NotOpened \<Rightarrow> st\<lparr>tail_pc := Following (length (logfile st))\<rparr>
      | Following p \<Rightarrow>
          (case readline (logfile st) p of
             (line, p') \<Rightarrow>
               st\<lparr>tail_pc := Following p',
                  console := console st @ [if line \<noteq> [] then Print (strip line) else Sleep 1]\<rparr>))"

fun tail_step :: "tail_event \<Rightarrow> tail_state \<Rightarrow> tail_state" where
  "tail_step (Write w) st = st\<lparr>logfile := logfile st @ w\<rparr>"
| "tail_step Tick st = publish_logs st"

fun tail_run :: "tail_event list \<Rightarrow> tail_state \<Rightarrow> tail_state" where
  "tail_run [] st = st"
| "tail_run (e # es) st = tail_run es (tail_step e st)"

fun printed :: "effect list \<Rightarrow> string list" where
  "printed [] = []"
| "printed (Print l # es) = l # printed es"
| "printed (e # es) = printed es"

fun written :: "tail_event list \<Rightarrow> string list" where
  "written [] = []"
| "written (Write w # es) = w # written es"
| "written (Tick # es) = written es"

definition emit :: "string \<Rightarrow> string" where
  "emit l = l @ [CHR 0x0A]"

definition log_text :: "string list \<Rightarrow> string" where
  "log_text ls = concat (map emit ls)"

definition one_line :: "string \<Rightarrow> bool" where
  "one_line l \<longleftrightarrow> CHR 0x0A \<notin> set l \<and> CHR 0x0D \<notin> set l"


section \<open>What is observed of a run\<close>

text \<open>
  The handles of the threads that execute \<open>f\<close> and are alive, the global assignments
  in a history, the command line without flags, and the facts about handles that hold
  in every state the supervisor reaches (the main thread has not failed, \<open>thread1\<close>
  is a thread of the telemetry relay, an enabled sensor worker has its handle bound to
  a thread, and a second relay thread exists only once \<open>thread1\<close> has ended).
\<close>

definition live_runs :: "target \<Rightarrow> sys \<Rightarrow> nat list" where
  "live_runs f s = filter (\<lambda>i. target (heap s ! i) = f \<and> is_alive s i) [0..<length (heap s)]"

fun assigns :: "act list \<Rightarrow> (string \<times> bool) list" where
  "assigns [] = []"
| "assigns (Assign n b # as) = (n, b) # assigns as"
| "assigns (Eff e # as) = assigns as"

definition no_flags :: args where
  "no_flags = \<lparr>arg_enumerate = False, arg_disable_t265 = False, arg_disable_d4xx = False,
               arg_sik_only = False\<rparr>"

definition handles_ok :: "sys \<Rightarrow> bool" where
  "handles_ok s \<longleftrightarrow>
     main_exn s = None
     \<and> thread1 s < length (heap s)
     \<and> target (heap s ! thread1 s) = Mavproxy_create_connection
     \<and> (t265_enabled s \<longrightarrow> thread2 s \<noteq> None)
     \<and> (d4xx_enabled s \<longrightarrow> thread3 s \<noteq> None)
     \<and> (\<forall>h. thread2 s = Some h \<longrightarrow> h < length (heap s))
     \<and> (\<forall>h. thread3 s = Some h \<longrightarrow> h < length (heap s))
     \<and> (\<forall>i < length (heap s).
           target (heap s ! i) = Mavproxy_create_connection \<longrightarrow> i \<noteq> thread1 s \<longrightarrow>
           \<not> is_alive s (thread1 s))"


text \<open>
  What a thread of the telemetry relay can leave in its history, and the state of the
  threads that are not sensor workers: none of them is inside a probe, and their
  histories hold relay actions only.
\<close>

definition relay_act :: "act \<Rightarrow> bool" where
  "relay_act a \<longleftrightarrow>
     a = Eff (Exec mavproxy_argv)
     \<or> (\<exists>rc. a = Eff (LogError ''mavproxy error: %s'' (CalledProcessError rc)))"

definition plain_threads :: "sys \<Rightarrow> bool" where
  "plain_threads s \<longleftrightarrow>
     (\<forall>j < length (heap s). (\<forall>x. target (heap s ! j) \<noteq> Run_sensor x) \<longrightarrow>
        pc (heap s ! j) \<noteq> Probing \<and> (\<forall>a \<in> set (history (heap s ! j)). relay_act a))"

text \<open>A thread that is still alive has assigned no global.\<close>

definition unassigned :: "sys \<Rightarrow> bool" where
  "unassigned s \<longleftrightarrow>
     (\<forall>j < length (heap s). pc_alive (pc (heap s ! j)) \<longrightarrow> assigns (history (heap s ! j)) = [])"

section \<open>Facts about the text primitives\<close>

lemma startswith_iff: "startswith p s \<longleftrightarrow> (\<exists>suf. s = p @ suf)"
  by (induction p s rule: startswith.induct) auto

lemma py_in_iff: "py_in sub s \<longleftrightarrow> (\<exists>pre suf. s = pre @ sub @ suf)"
proof (induction s)
  case Nil
  then show ?case by auto
next
  case (Cons c cs)
  show ?case
  proof
    assume "py_in sub (c # cs)"
    then consider "startswith sub (c # cs)" | "py_in sub cs" by auto
    then show "\<exists>pre suf. c # cs = pre @ sub @ suf"
    proof cases
      case 1
      then obtain suf where "c # cs = sub @ suf" using startswith_iff by blast
      then have "c # cs = [] @ sub @ suf" by simp
      then show ?thesis by blast
    next
      case 2
      then obtain pre suf where "cs = pre @ sub @ suf" using Cons.IH by blast
      then have "c # cs = (c # pre) @ sub @ suf" by simp
      then show ?thesis by blast
    qed
  next
    assume "\<exists>pre suf. c # cs = pre @ sub @ suf"
    then obtain pre suf where e: "c # cs = pre @ sub @ suf" by blast
    show "py_in sub (c # cs)"
    proof (cases pre)
      case Nil
      with e have "startswith sub (c # cs)" using startswith_iff by auto
      then show ?thesis by simp
    next
      case (Cons d ds)
      with e have "cs = ds @ sub @ suf" by simp
      then have "py_in sub cs" using Cons.IH by blast
      then show ?thesis by simp
    qed
  qed
qed

lemma strip_trailing_space:
  assumes "is_space c"
  shows "strip (l @ [c]) = strip l"
proof (cases "\<forall>x \<in> set l. is_space x")
  case True
  then have e: "dropWhile is_space (l @ [c]) = []" "dropWhile is_space l = []"
    using assms by (induction l) auto
  show ?thesis unfolding strip_def e by simp
next
  case False
  then have e: "dropWhile is_space (l @ [c]) = dropWhile is_space l @ [c]"
    by (induction l) auto
  show ?thesis unfolding strip_def e using assms by simp
qed


section \<open>Device Prober: what a probe returns\<close>

lemma scan_lines_iff: "scan_lines p ls \<longleftrightarrow> (\<exists>l \<in> set ls. py_in p l)"
  by (induction ls) auto

text \<open>
  Claim C7. Whatever the prefix, when the enumeration tool runs and exits (with any
  return code), \<open>is_device_connected\<close> makes exactly one call of the tool and nothing
  else, and returns \<open>True\<close> exactly when some line of the tool's output, as
  \<open>splitlines\<close> cuts it, contains the prefix character for character.
\<close>

theorem is_device_connected_scans_output:
  "is_device_connected prefix (Exited rc out) =
     (Inr (\<exists>line \<in> set (splitlines out). \<exists>pre suf. line = pre @ prefix @ suf),
      [Exec rs_enumerate_devices])"
  by (simp add: is_device_connected_def subprocess_run_def scan_lines_iff py_in_iff)

theorem is_device_connected_scans_output_witness:
  "is_device_connected ''D4'' (Exited 0 (''Intel T265'' @ [CHR 0x0A] @ ''Intel D435'')) =
     (Inr True, [Exec rs_enumerate_devices])
   \<and> is_device_connected ''d4'' (Exited 0 (''Intel T265'' @ [CHR 0x0A] @ ''Intel D435'')) =
     (Inr False, [Exec rs_enumerate_devices])"
proof -
  let ?out = "''Intel T265'' @ [CHR 0x0A] @ ''Intel D435''"
  have lines: "splitlines ?out = [''Intel T265'', ''Intel D435'']"
    by (simp add: splitlines_def is_linebreak_def)
  have yes: "\<exists>line \<in> set (splitlines ?out). \<exists>pre suf. line = pre @ ''D4'' @ suf"
    unfolding lines py_in_iff [symmetric] by simp
  have no: "\<not> (\<exists>line \<in> set (splitlines ?out). \<exists>pre suf. line = pre @ ''d4'' @ suf)"
    unfolding lines py_in_iff [symmetric] by simp
  show ?thesis
    using is_device_connected_scans_output [of "''D4''" 0 ?out]
      is_device_connected_scans_output [of "''d4''" 0 ?out] yes no
    by simp
qed

text \<open>
  Claim C2. The claim asks that a tool that cannot be started, or that exits with a
  non-zero status, gives \<open>False\<close> and a logged failure with no exception leaving the
  call. In the code the \<open>OSError\<close> of a tool that cannot be started leaves
  \<open>is_device_connected\<close>, and a tool that exits with status 1 after printing a line
  with the prefix gives \<open>True\<close>; neither run logs anything.
\<close>

theorem is_device_connected_tool_failure:
  "is_device_connected ''T265'' CannotInvoke = (Inl OSError, [Exec rs_enumerate_devices])
   \<and> is_device_connected ''T265'' (Exited 1 ''Intel RealSense T265'') =
       (Inr True, [Exec rs_enumerate_devices])"
  by (simp add: is_device_connected_def subprocess_run_def splitlines_def is_linebreak_def)


section \<open>Device Prober: the enumeration report\<close>

lemma match_prefixes_relevant:
  "match_prefixes relevant_devices l det =
     det @ (if py_in ''T265'' l \<or> py_in ''D4'' l then [strip l] else [])"
  by (simp add: relevant_devices_def)

lemma collect_devices_eq:
  "collect_devices ls det =
     det @ map strip (filter (\<lambda>l. py_in ''T265'' l \<or> py_in ''D4'' l) ls)"
  by (induction ls arbitrary: det) (simp_all add: match_prefixes_relevant)

text \<open>
  Claim C9. When the enumeration tool runs and exits, \<open>enumerate_devices\<close> collects, in
  order, the stripped text of every output line that contains \<open>T265\<close> or \<open>D4\<close>; it
  prints a header and then each collected entry, or the none-detected message exactly
  when no line contains either prefix. With the enumerate flag the main block is this
  report and nothing else: no supervision state comes into being.
\<close>

theorem enumerate_devices_report:
  "enumerate_devices (Exited rc out) =
     (Inr (),
      Exec rs_enumerate_devices #
      (if \<exists>l \<in> set (splitlines out). py_in ''T265'' l \<or> py_in ''D4'' l
       then Print ''Detected RealSense Devices:'' #
            map Print (map strip (filter (\<lambda>l. py_in ''T265'' l \<or> py_in ''D4'' l) (splitlines out)))
       else [Print ''No relevant RealSense devices detected.'']))
   \<and> main (a\<lparr>arg_enumerate := True\<rparr>) r = Diagnostic (enumerate_devices r)"
proof -
  let ?hit = "\<lambda>l. py_in ''T265'' l \<or> py_in ''D4'' l"
  have "filter ?hit (splitlines out) \<noteq> [] \<longleftrightarrow> (\<exists>l \<in> set (splitlines out). ?hit l)"
    by (simp add: filter_empty_conv)
  then show ?thesis
    by (simp add: enumerate_devices_def subprocess_run_def collect_devices_eq report_def
        main_def)
qed

theorem enumerate_devices_report_witness:
  "enumerate_devices (Exited 0 (''  Intel T265 '' @ [CHR 0x0A] @ ''usb hub'')) =
     (Inr (), [Exec rs_enumerate_devices, Print ''Detected RealSense Devices:'',
               Print ''Intel T265''])
   \<and> enumerate_devices (Exited 0 ''usb hub'') =
     (Inr (), [Exec rs_enumerate_devices, Print ''No relevant RealSense devices detected.''])
   \<and> main \<lparr>arg_enumerate = True, arg_disable_t265 = False, arg_disable_d4xx = False,
            arg_sik_only = True\<rparr> CannotInvoke = Diagnostic (Inl OSError, [Exec rs_enumerate_devices])"
proof -
  let ?a = "\<lparr>arg_enumerate = True, arg_disable_t265 = False, arg_disable_d4xx = False,
             arg_sik_only = True\<rparr>"
  have l1: "splitlines (''  Intel T265 '' @ [CHR 0x0A] @ ''usb hub'') = [''  Intel T265 '', ''usb hub'']"
    by (simp add: splitlines_def is_linebreak_def)
  have l2: "splitlines ''usb hub'' = [''usb hub'']"
    by (simp add: splitlines_def is_linebreak_def)
  have s: "strip ''  Intel T265 '' = ''Intel T265''"
    by (simp add: strip_def is_space_def)
  have e: "enumerate_devices CannotInvoke = (Inl OSError, [Exec rs_enumerate_devices])"
    by (simp add: enumerate_devices_def subprocess_run_def)
  show ?thesis
    using enumerate_devices_report [of 0 "''  Intel T265 '' @ [CHR 0x0A] @ ''usb hub''" ?a CannotInvoke]
      enumerate_devices_report [of 0 "''usb hub''" ?a CannotInvoke]
    unfolding l1 l2 by (simp add: s e)
qed

text \<open>
  Claim C10. Each output line adds at most one entry to the detected list: the inner
  loop appends the stripped line once when the line contains \<open>T265\<close> or \<open>D4\<close>, also
  when it contains both, and nothing otherwise; so the list the outer loop builds from
  the empty list has one entry for each matching line, in order, and is no longer than
  the output.
\<close>

theorem enumerate_devices_line_once:
  "match_prefixes relevant_devices l det =
     det @ (if py_in ''T265'' l \<or> py_in ''D4'' l then [strip l] else [])
   \<and> (py_in ''T265'' l \<and> py_in ''D4'' l \<longrightarrow>
        match_prefixes relevant_devices l det = det @ [strip l])
   \<and> collect_devices ls [] = map strip (filter (\<lambda>l. py_in ''T265'' l \<or> py_in ''D4'' l) ls)
   \<and> length (collect_devices ls []) \<le> length ls"
  by (simp add: match_prefixes_relevant collect_devices_eq)

theorem enumerate_devices_line_once_witness:
  "py_in ''T265'' ''T265 D4'' \<and> py_in ''D4'' ''T265 D4''
   \<and> match_prefixes relevant_devices ''T265 D4'' [] = [''T265 D4'']
   \<and> collect_devices [''T265 D4'', ''hub'', ''T265 D4''] [] = [''T265 D4'', ''T265 D4'']"
proof -
  have s: "strip ''T265 D4'' = ''T265 D4''"
    by (simp add: strip_def is_space_def)
  have p: "py_in ''T265'' ''T265 D4''" "py_in ''D4'' ''T265 D4''"
    by simp_all
  note t = enumerate_devices_line_once [of "''T265 D4''" "[]" "[''T265 D4'', ''hub'', ''T265 D4'']"]
  from t p have a: "match_prefixes relevant_devices ''T265 D4'' [] = [] @ [strip ''T265 D4'']"
    by blast
  from t have b: "collect_devices [''T265 D4'', ''hub'', ''T265 D4''] [] =
      map strip (filter (\<lambda>l. py_in ''T265'' l \<or> py_in ''D4'' l) [''T265 D4'', ''hub'', ''T265 D4''])"
    by blast
  show ?thesis unfolding a b by (simp add: s)
qed


section \<open>Status Tail: what the follower shows\<close>

lemma printed_append: "printed (xs @ ys) = printed xs @ printed ys"
  by (induction xs rule: printed.induct) auto

lemma tail_run_append: "tail_run (es @ es') st = tail_run es' (tail_run es st)"
  by (induction es arbitrary: st) auto

lemma written_ticks: "written (replicate n Tick) = []"
  by (induction n) auto

lemma log_text_append: "log_text (xs @ ys) = log_text xs @ log_text ys"
  by (simp add: log_text_def)

lemma read_to_eol_one_line:
  "one_line l \<Longrightarrow> read_to_eol (l @ CHR 0x0A # rest) = (l @ [CHR 0x0A], Suc (length l))"
  by (induction l) (auto simp: one_line_def)

lemma read_to_eol_nonempty: "s \<noteq> [] \<Longrightarrow> fst (read_to_eol s) \<noteq> []"
proof (cases s)
  case Nil
  assume "s \<noteq> []"
  with Nil show ?thesis by simp
next
  case (Cons c cs)
  obtain l n where r: "read_to_eol cs = (l, n)" by (cases "read_to_eol cs") auto
  show ?thesis unfolding Cons by (simp add: r split: list.split)
qed

lemma publish_logs_following:
  assumes "tail_pc st = Following p"
  shows "publish_logs st =
     (if length (logfile st) \<le> p
      then st\<lparr>console := console st @ [Sleep 1]\<rparr>
      else st\<lparr>tail_pc := Following (snd (readline (logfile st) p)),
              console := console st @ [Print (strip (fst (readline (logfile st) p)))]\<rparr>)"
proof (cases "length (logfile st) \<le> p")
  case True
  then have "readline (logfile st) p = ([], p)" by (simp add: readline_def)
  with assms True show ?thesis by (simp add: publish_logs_def)
next
  case False
  then have "drop p (logfile st) \<noteq> []" by simp
  from read_to_eol_nonempty [OF this] have "fst (readline (logfile st) p) \<noteq> []"
    by (cases "read_to_eol (drop p (logfile st))") (simp add: readline_def)
  with assms False show ?thesis
    by (cases "readline (logfile st) p") (simp add: publish_logs_def)
qed

lemma publish_logs_line:
  assumes f: "logfile st = h @ log_text A"
    and p: "tail_pc st = Following (length h + length (log_text (take k A)))"
    and k: "k < length A" and c: "one_line (A ! k)"
  shows "publish_logs st =
     st\<lparr>tail_pc := Following (length h + length (log_text (take (Suc k) A))),
        console := console st @ [Print (strip (A ! k))]\<rparr>"
proof -
  let ?X = "log_text (take k A)" and ?Y = "log_text (drop (Suc k) A)"
  have "A = take k A @ A ! k # drop (Suc k) A" using k by (rule id_take_nth_drop)
  then have "log_text A = log_text (take k A @ A ! k # drop (Suc k) A)" by simp
  also have "\<dots> = ?X @ log_text (A ! k # drop (Suc k) A)" by (rule log_text_append)
  also have "\<dots> = ?X @ A ! k @ CHR 0x0A # ?Y" by (simp add: log_text_def emit_def)
  finally have fl: "logfile st = (h @ ?X) @ A ! k @ CHR 0x0A # ?Y"
    using f by simp
  have gen: "drop (length xs) (xs @ ys) = ys" for xs ys :: string by simp
  have "drop (length (h @ ?X)) (logfile st) = A ! k @ CHR 0x0A # ?Y"
    unfolding fl by (rule gen)
  then have d: "drop (length h + length ?X) (logfile st) = A ! k @ CHR 0x0A # ?Y"
    by simp
  have r: "readline (logfile st) (length h + length ?X) =
      (A ! k @ [CHR 0x0A], length h + length ?X + Suc (length (A ! k)))"
    unfolding readline_def d read_to_eol_one_line [OF c] by simp
  have "take (Suc k) A = take k A @ [A ! k]" using k by (rule take_Suc_conv_app_nth)
  then have n: "length (log_text (take (Suc k) A)) = length ?X + Suc (length (A ! k))"
    by (simp add: log_text_def emit_def)
  have sp: "is_space (CHR 0x0A)" by (simp add: is_space_def)
  show ?thesis
    using p r n by (simp add: publish_logs_def strip_trailing_space [OF sp])
qed

lemma publish_logs_idle:
  assumes f: "logfile st = h @ log_text A"
    and p: "tail_pc st = Following (length h + length (log_text A))"
  shows "publish_logs st = st\<lparr>console := console st @ [Sleep 1]\<rparr>"
  using publish_logs_following [OF p] f by simp

lemma tail_run_follows:
  assumes "logfile st = h @ log_text A"
    and "tail_pc st = Following (length h + length (log_text (take k A)))"
    and "k \<le> length A"
    and "written evs = map emit B"
    and "\<forall>l \<in> set (A @ B). one_line l"
  shows "\<exists>j. k \<le> j \<and> j \<le> length (A @ B)
           \<and> logfile (tail_run evs st) = h @ log_text (A @ B)
           \<and> tail_pc (tail_run evs st) = Following (length h + length (log_text (take j (A @ B))))
           \<and> printed (console (tail_run evs st)) =
               printed (console st) @ map strip (take (j - k) (drop k (A @ B)))"
  using assms
proof (induction evs arbitrary: st A k B)
  case Nil
  then have "B = []" by simp
  with Nil show ?case by (intro exI [of _ k]) simp
next
  case (Cons e es)
  show ?case
  proof (cases e)
    case (Write w)
    with Cons.prems(4) obtain b B' where B: "B = b # B'" "w = emit b" "written es = map emit B'"
      by (cases B) auto
    let ?s = "st\<lparr>logfile := logfile st @ w\<rparr>"
    have 1: "logfile ?s = h @ log_text (A @ [b])"
      using Cons.prems(1) B(2) by (simp add: log_text_def)
    have 2: "tail_pc ?s = Following (length h + length (log_text (take k (A @ [b]))))"
      using Cons.prems(2,3) by simp
    have 3: "k \<le> length (A @ [b])" using Cons.prems(3) by simp
    have 5: "\<forall>l \<in> set ((A @ [b]) @ B'). one_line l" using Cons.prems(5) B(1) by simp
    from Cons.IH [OF 1 2 3 B(3) 5] obtain j where
      "k \<le> j" "j \<le> length ((A @ [b]) @ B')"
      "logfile (tail_run es ?s) = h @ log_text ((A @ [b]) @ B')"
      "tail_pc (tail_run es ?s) = Following (length h + length (log_text (take j ((A @ [b]) @ B'))))"
      "printed (console (tail_run es ?s)) =
         printed (console ?s) @ map strip (take (j - k) (drop k ((A @ [b]) @ B')))"
      by blast
    then show ?thesis using Write B(1) by (intro exI [of _ j]) simp
  next
    case Tick
    show ?thesis
    proof (cases "k < length A")
      case True
      have c: "one_line (A ! k)" using Cons.prems(5) True by simp
      let ?s = "st\<lparr>tail_pc := Following (length h + length (log_text (take (Suc k) A))),
                    console := console st @ [Print (strip (A ! k))]\<rparr>"
      have step: "tail_step e st = ?s"
        using Tick publish_logs_line [OF Cons.prems(1,2) True c] by simp
      have 1: "logfile ?s = h @ log_text A" using Cons.prems(1) by simp
      have 2: "tail_pc ?s = Following (length h + length (log_text (take (Suc k) A)))" by simp
      have 3: "Suc k \<le> length A" using True by simp
      have 4: "written es = map emit B" using Cons.prems(4) Tick by simp
      from Cons.IH [OF 1 2 3 4 Cons.prems(5)] obtain j where j:
        "Suc k \<le> j" "j \<le> length (A @ B)"
        "logfile (tail_run es ?s) = h @ log_text (A @ B)"
        "tail_pc (tail_run es ?s) = Following (length h + length (log_text (take j (A @ B))))"
        "printed (console (tail_run es ?s)) =
           printed (console ?s) @ map strip (take (j - Suc k) (drop (Suc k) (A @ B)))"
        by blast
      have "k < length (A @ B)" using True by simp
      then have d: "drop k (A @ B) = (A @ B) ! k # drop (Suc k) (A @ B)"
        by (rule Cons_nth_drop_Suc [symmetric])
      have n: "(A @ B) ! k = A ! k" using True by (simp add: nth_append)
      have jk: "j - k = Suc (j - Suc k)" using j(1) by simp
      have t: "take (j - k) (drop k (A @ B)) = A ! k # take (j - Suc k) (drop (Suc k) (A @ B))"
        unfolding d n jk by simp
      have pr: "printed (console (tail_run (e # es) st)) =
          printed (console st) @ map strip (take (j - k) (drop k (A @ B)))"
        unfolding t using j(5) step by (simp add: printed_append)
      have kj: "k \<le> j" using j(1) by simp
      show ?thesis
        using kj j(2,3,4) pr step by (intro exI [of _ j]) simp
    next
      case False
      then have kA: "k = length A" using Cons.prems(3) by simp
      let ?s = "st\<lparr>console := console st @ [Sleep 1]\<rparr>"
      have p: "tail_pc st = Following (length h + length (log_text A))"
        using Cons.prems(2) kA by simp
      have step: "tail_step e st = ?s"
        using Tick publish_logs_idle [OF Cons.prems(1) p] by simp
      have 1: "logfile ?s = h @ log_text A" using Cons.prems(1) by simp
      have 2: "tail_pc ?s = Following (length h + length (log_text (take k A)))"
        using Cons.prems(2) by simp
      have 4: "written es = map emit B" using Cons.prems(4) Tick by simp
      from Cons.IH [OF 1 2 Cons.prems(3) 4 Cons.prems(5)] obtain j where j:
        "k \<le> j" "j \<le> length (A @ B)"
        "logfile (tail_run es ?s) = h @ log_text (A @ B)"
        "tail_pc (tail_run es ?s) = Following (length h + length (log_text (take j (A @ B))))"
        "printed (console (tail_run es ?s)) =
           printed (console ?s) @ map strip (take (j - k) (drop k (A @ B)))"
        by blast
      then show ?thesis
        using step by (intro exI [of _ j]) (simp add: printed_append)
    qed
  qed
qed

lemma tail_ticks_catch_up:
  assumes "logfile st = h @ log_text A"
    and "tail_pc st = Following (length h + length (log_text (take k A)))"
    and "k \<le> length A"
    and "\<forall>l \<in> set A. one_line l"
  shows "tail_pc (tail_run (replicate n Tick) st) =
           Following (length h + length (log_text (take (min (k + n) (length A)) A)))
         \<and> logfile (tail_run (replicate n Tick) st) = logfile st
         \<and> printed (console (tail_run (replicate n Tick) st)) =
             printed (console st) @ map strip (take (min (k + n) (length A) - k) (drop k A))"
  using assms
proof (induction n arbitrary: st k)
  case 0
  then show ?case by simp
next
  case (Suc n)
  show ?case
  proof (cases "k < length A")
    case True
    have c: "one_line (A ! k)" using Suc.prems(4) True by simp
    let ?s = "st\<lparr>tail_pc := Following (length h + length (log_text (take (Suc k) A))),
                  console := console st @ [Print (strip (A ! k))]\<rparr>"
    have step: "publish_logs st = ?s"
      by (rule publish_logs_line [OF Suc.prems(1,2) True c])
    have 1: "logfile ?s = h @ log_text A" using Suc.prems(1) by simp
    have 2: "tail_pc ?s = Following (length h + length (log_text (take (Suc k) A)))" by simp
    have 3: "Suc k \<le> length A" using True by simp
    note ih = Suc.IH [OF 1 2 3 Suc.prems(4)]
    have m: "min (Suc k + n) (length A) = min (k + Suc n) (length A)" by simp
    have d: "drop k A = A ! k # drop (Suc k) A"
      using True by (rule Cons_nth_drop_Suc [symmetric])
    have "min (k + Suc n) (length A) - k = Suc (min (k + Suc n) (length A) - Suc k)"
      using True by (auto simp: min_def)
    then have t: "take (min (k + Suc n) (length A) - k) (drop k A) =
        A ! k # take (min (k + Suc n) (length A) - Suc k) (drop (Suc k) A)"
      unfolding d by simp
    show ?thesis
      unfolding t using ih step Suc.prems(1) unfolding m by (simp add: printed_append)
  next
    case False
    then have kA: "k = length A" using Suc.prems(3) by simp
    let ?s = "st\<lparr>console := console st @ [Sleep 1]\<rparr>"
    have p: "tail_pc st = Following (length h + length (log_text A))"
      using Suc.prems(2) kA by simp
    have step: "publish_logs st = ?s"
      by (rule publish_logs_idle [OF Suc.prems(1) p])
    have 1: "logfile ?s = h @ log_text A" using Suc.prems(1) by simp
    have 2: "tail_pc ?s = Following (length h + length (log_text (take k A)))"
      using Suc.prems(2) by simp
    note ih = Suc.IH [OF 1 2 Suc.prems(3,4)]
    show ?thesis
      using ih step kA Suc.prems(1) by (simp add: printed_append)
  qed
qed

text \<open>
  A write that holds a line ending is read as several lines, and a write without a
  final newline as a partial line.
\<close>

lemma publish_logs_universal_newlines:
  "printed (console (tail_run [Write (''a'' @ [CHR 0x0D] @ ''b'' @ [CHR 0x0A]), Tick, Tick, Tick]
     \<lparr>logfile = [], tail_pc = Following 0, console = []\<rparr>)) = [''a'', ''b'']"
  by code_simp

lemma publish_logs_partial_line:
  "printed (console (tail_run [Write ''ab'', Tick, Write (''cd'' @ [CHR 0x0A]), Tick, Tick]
     \<lparr>logfile = [], tail_pc = Following 0, console = []\<rparr>)) = [''ab'', ''cd'']"
  by code_simp

text \<open>
  Claim C8. \<open>publish_logs\<close> opens the log file at its end, so that nothing already in
  the file is shown. Let every write be one line, free of line endings, with its
  newline, as the logging handler writes a record. Then, under any interleaving of the
  producers' writes and the steps of the follower, what it has printed is, stripped, an
  initial part of the lines written since, in the order of writing; once it has taken
  as many further steps as lines were written, it has printed every one of them exactly
  once. A step at the end of the file is \<open>time.sleep(1)\<close> and prints nothing; any other
  step prints, stripped, what \<open>readline\<close> returns.
\<close>

theorem publish_logs_follows:
  assumes "written evs = map emit ls" and "\<forall>l \<in> set ls. one_line l"
  shows "publish_logs \<lparr>logfile = h, tail_pc = NotOpened, console = []\<rparr> =
     \<lparr>logfile = h, tail_pc = Following (length h), console = []\<rparr>
   \<and> (\<exists>k \<le> length ls.
        tail_pc (tail_run evs \<lparr>logfile = h, tail_pc = Following (length h), console = []\<rparr>) =
          Following (length h + length (log_text (take k ls)))
        \<and> logfile (tail_run evs \<lparr>logfile = h, tail_pc = Following (length h), console = []\<rparr>) =
          h @ log_text ls
        \<and> printed (console (tail_run evs \<lparr>logfile = h, tail_pc = Following (length h), console = []\<rparr>)) =
          map strip (take k ls))
   \<and> (length ls \<le> n \<longrightarrow>
        printed (console (tail_run (evs @ replicate n Tick)
                   \<lparr>logfile = h, tail_pc = Following (length h), console = []\<rparr>)) =
          map strip ls)
   \<and> (tail_pc st = Following p \<longrightarrow>
        publish_logs st =
          (if length (logfile st) \<le> p
           then st\<lparr>console := console st @ [Sleep 1]\<rparr>
           else st\<lparr>tail_pc := Following (snd (readline (logfile st) p)),
                   console := console st @ [Print (strip (fst (readline (logfile st) p)))]\<rparr>))"
proof -
  let ?st1 = "\<lparr>logfile = h, tail_pc = Following (length h), console = []\<rparr>"
  let ?s = "tail_run evs ?st1"
  have open_seek: "publish_logs \<lparr>logfile = h, tail_pc = NotOpened, console = []\<rparr> = ?st1"
    by (simp add: publish_logs_def)
  have 1: "logfile ?st1 = h @ log_text []" by (simp add: log_text_def)
  have 2: "tail_pc ?st1 = Following (length h + length (log_text (take 0 [])))"
    by (simp add: log_text_def)
  have 5: "\<forall>l \<in> set ([] @ ls). one_line l" using assms(2) by simp
  from tail_run_follows [OF 1 2 _ assms(1) 5] obtain k where k:
    "k \<le> length ls" "logfile ?s = h @ log_text ls"
    "tail_pc ?s = Following (length h + length (log_text (take k ls)))"
    "printed (console ?s) = map strip (take k ls)"
    by auto
  have part2: "\<exists>k \<le> length ls. tail_pc ?s = Following (length h + length (log_text (take k ls)))
      \<and> logfile ?s = h @ log_text ls \<and> printed (console ?s) = map strip (take k ls)"
    using k by (intro exI [of _ k]) simp
  have part3: "printed (console (tail_run (evs @ replicate n Tick) ?st1)) = map strip ls"
    if n: "length ls \<le> n"
  proof -
    have m: "min (k + n) (length ls) - k = length ls - k" using n by (auto simp: min_def)
    from tail_ticks_catch_up [OF k(2,3,1) assms(2), of n]
    have "printed (console (tail_run (replicate n Tick) ?s)) =
        map strip (take k ls) @ map strip (take (length ls - k) (drop k ls))"
      unfolding m k(4) by simp
    also have "\<dots> = map strip (take k ls) @ map strip (drop k ls)"
      by simp
    also have "\<dots> = map strip (take k ls @ drop k ls)"
      by (simp only: map_append)
    also have "\<dots> = map strip ls" by (simp only: append_take_drop_id)
    finally show ?thesis by (simp add: tail_run_append)
  qed
  show ?thesis
    using open_seek part2 part3 publish_logs_following by blast
qed

theorem publish_logs_follows_witness:
  "written [Write (emit ''a ''), Tick, Tick, Write (emit ''b''), Write (emit '' c'')] =
     map emit [''a '', ''b'', '' c'']
   \<and> one_line ''a '' \<and> one_line ''b'' \<and> one_line '' c''
   \<and> printed (console (tail_run
        ([Write (emit ''a ''), Tick, Tick, Write (emit ''b''), Write (emit '' c'')] @ replicate 3 Tick)
        \<lparr>logfile = ''old entry'', tail_pc = Following (length ''old entry''), console = []\<rparr>)) =
     [''a'', ''b'', ''c'']
   \<and> publish_logs \<lparr>logfile = ''old'', tail_pc = Following 3, console = []\<rparr> =
       \<lparr>logfile = ''old'', tail_pc = Following 3, console = [Sleep 1]\<rparr>"
proof -
  let ?evs = "[Write (emit ''a ''), Tick, Tick, Write (emit ''b''), Write (emit '' c'')]"
  let ?ls = "[''a '', ''b'', '' c'']"
  let ?st = "\<lparr>logfile = ''old'', tail_pc = Following 3, console = []\<rparr>"
  have w: "written ?evs = map emit ?ls" by simp
  have o: "one_line ''a ''" "one_line ''b''" "one_line '' c''" by (simp_all add: one_line_def)
  then have c: "\<forall>l \<in> set ?ls. one_line l" by simp
  note t = publish_logs_follows [OF w c, of "''old entry''" 3 ?st 3]
  have le: "length ?ls \<le> 3" by simp
  have s: "map strip ?ls = [''a'', ''b'', ''c'']"
    by (simp add: strip_def is_space_def)
  from t le have a: "printed (console (tail_run (?evs @ replicate 3 Tick)
      \<lparr>logfile = ''old entry'', tail_pc = Following (length ''old entry''), console = []\<rparr>)) =
      map strip ?ls"
    by blast
  have pc: "tail_pc ?st = Following 3" by simp
  from t pc have b: "publish_logs ?st =
          (if length (logfile ?st) \<le> 3
           then ?st\<lparr>console := console ?st @ [Sleep 1]\<rparr>
           else ?st\<lparr>tail_pc := Following (snd (readline (logfile ?st) 3)),
                   console := console ?st @ [Print (strip (fst (readline (logfile ?st) 3)))]\<rparr>)"
    by blast
  have b': "publish_logs ?st = \<lparr>logfile = ''old'', tail_pc = Following 3, console = [Sleep 1]\<rparr>"
    unfolding b by simp
  show ?thesis using w o a s b' by simp
qed


section \<open>Supervisor: what one event changes\<close>

lemma mavproxy_dead:
  "\<not> pc_alive p \<Longrightarrow> mavproxy_create_connection p inp = (p, [])"
  by (auto simp: mavproxy_create_connection_def pc_alive_def split: pc.splits option.splits)

lemma run_sensor_dead:
  "\<not> pc_alive p \<Longrightarrow> run_sensor x en p inp = (p, en, [])"
  by (auto simp: run_sensor_def pc_alive_def split: pc.splits option.splits)

lemma run_sensor_flag:
  "run_sensor x en p inp = (p', en', acts) \<Longrightarrow> en' \<longrightarrow> en"
  by (auto simp: run_sensor_def split: pc.splits option.splits prod.splits sum.splits exn.splits bool.splits if_splits)

lemma set_flag_simps [simp]:
  "heap (set_flag x b s) = heap s"
  "thread1 (set_flag x b s) = thread1 s"
  "thread2 (set_flag x b s) = thread2 s"
  "thread3 (set_flag x b s) = thread3 s"
  "log_thread (set_flag x b s) = log_thread s"
  "main_exn (set_flag x b s) = main_exn s"
  "main_history (set_flag x b s) = main_history s"
  "enabled_flag y (set_flag x b s) = (if y = x then b else enabled_flag y s)"
  by (cases x; cases y; simp add: set_flag_def enabled_flag_def)+

lemma thread_step_frame [simp]:
  "length (heap (thread_step i inp s)) = length (heap s)"
  "thread1 (thread_step i inp s) = thread1 s"
  "thread2 (thread_step i inp s) = thread2 s"
  "thread3 (thread_step i inp s) = thread3 s"
  "log_thread (thread_step i inp s) = log_thread s"
  "main_exn (thread_step i inp s) = main_exn s"
  "main_history (thread_step i inp s) = main_history s"
  by (auto simp: thread_step_def Let_def split: target.splits prod.splits)

lemma thread_step_target [simp]:
  "target (heap (thread_step i inp s) ! j) = target (heap s ! j)"
  by (cases "j = i") (auto simp: thread_step_def Let_def split: target.splits prod.splits)

lemma thread_step_other:
  "j \<noteq> i \<Longrightarrow> heap (thread_step i inp s) ! j = heap s ! j"
  by (auto simp: thread_step_def Let_def split: target.splits prod.splits)

lemma thread_step_dead:
  "\<not> pc_alive (pc (heap s ! j)) \<Longrightarrow> heap (thread_step i inp s) ! j = heap s ! j"
proof (cases "j = i")
  case False
  then show ?thesis by (simp add: thread_step_other)
next
  case True
  assume "\<not> pc_alive (pc (heap s ! j))"
  then show ?thesis
    using True
    by (auto simp: thread_step_def Let_def mavproxy_dead run_sensor_dead split: target.splits)
qed

lemma enabled_flag_frame [simp]:
  "enabled_flag y (s\<lparr>heap := h\<rparr>) = enabled_flag y s"
  "enabled_flag y (s\<lparr>main_history := m\<rparr>) = enabled_flag y s"
  "enabled_flag y (s\<lparr>main_exn := e\<rparr>) = enabled_flag y s"
  by (simp_all add: enabled_flag_def split: sensor.splits)

lemma thread_step_flag:
  assumes "enabled_flag y (thread_step i inp s)"
  shows "enabled_flag y s"
proof (cases "i < length (heap s)")
  case False
  with assms show ?thesis by (simp add: thread_step_def)
next
  case True
  show ?thesis
  proof (cases "target (heap s ! i)")
    case Mavproxy_create_connection
    with assms True show ?thesis
      by (simp add: thread_step_def Let_def split: prod.splits)
  next
    case Publish_logs
    with assms True show ?thesis by (simp add: thread_step_def Let_def)
  next
    case (Run_sensor x)
    obtain p' en' acts where r: "run_sensor x (enabled_flag x s) (pc (heap s ! i)) inp = (p', en', acts)"
      by (cases "run_sensor x (enabled_flag x s) (pc (heap s ! i)) inp") auto
    from run_sensor_flag [OF r] assms True Run_sensor r show ?thesis
      by (simp add: thread_step_def Let_def split: if_splits)
  qed
qed

lemma is_alive_heap_append:
  "h < length (heap s) \<Longrightarrow> is_alive (s\<lparr>heap := heap s @ ts\<rparr>) h = is_alive s h"
  by (simp add: is_alive_def nth_append)

lemma restart_dead_frame [simp]:
  "thread1 (restart_dead ts s) = thread1 s"
  "thread2 (restart_dead ts s) = thread2 s"
  "thread3 (restart_dead ts s) = thread3 s"
  "log_thread (restart_dead ts s) = log_thread s"
  "main_exn (restart_dead ts s) = main_exn s"
  "main_history (restart_dead ts s) = main_history s"
  "t265_enabled (restart_dead ts s) = t265_enabled s"
  "d4xx_enabled (restart_dead ts s) = d4xx_enabled s"
  by (induction ts s rule: restart_dead.induct; simp add: start_def)+

lemma restart_dead_heap:
  "\<exists>ns. heap (restart_dead ts s) = heap s @ map new_thread ns \<and> set ns \<subseteq> snd ` set ts"
proof (induction ts s rule: restart_dead.induct)
  case (1 s)
  show ?case by (intro exI [of _ "[]"]) simp
next
  case (2 h func threads s)
  let ?s = "if \<not> is_alive s h then start func s else s"
  from 2 obtain ns where ns:
    "heap (restart_dead threads ?s) = heap ?s @ map new_thread ns" "set ns \<subseteq> snd ` set threads"
    by blast
  show ?case
  proof (cases "is_alive s h")
    case True
    with ns show ?thesis by (intro exI [of _ ns]) auto
  next
    case False
    with ns show ?thesis by (intro exI [of _ "func # ns"]) (auto simp: start_def)
  qed
qed

lemma restart_dead_valid:
  assumes "\<forall>(h, f) \<in> set ts. h < length (heap s)"
  shows "heap (restart_dead ts s) =
           heap s @ map new_thread (map snd (filter (\<lambda>(h, f). \<not> is_alive s h) ts))"
  using assms
proof (induction ts s rule: restart_dead.induct)
  case (1 s)
  show ?case by simp
next
  case (2 h func threads s)
  let ?s = "if \<not> is_alive s h then start func s else s"
  have valid: "\<forall>(h, f) \<in> set threads. h < length (heap ?s)"
    using "2.prems" by (auto simp: start_def)
  have same: "filter (\<lambda>(h, f). \<not> is_alive ?s h) threads = filter (\<lambda>(h, f). \<not> is_alive s h) threads"
    using "2.prems" by (intro filter_cong) (auto simp: start_def is_alive_heap_append)
  show ?case
    using "2.IH" [OF valid] same by (simp add: start_def)
qed

lemma monitored_cases:
  "monitored s = Inl NameError \<or>
   (\<exists>ts. monitored s = Inr ((thread1 s, Mavproxy_create_connection) # ts)
        \<and> (\<forall>(h, f) \<in> set ts. \<exists>x. f = Run_sensor x \<and> enabled_flag x s))"
  by (auto simp: monitored_def enabled_flag_def split: option.splits)

lemma monitor_cycle_frame [simp]:
  "thread1 (monitor_cycle s) = thread1 s"
  "thread2 (monitor_cycle s) = thread2 s"
  "thread3 (monitor_cycle s) = thread3 s"
  "log_thread (monitor_cycle s) = log_thread s"
  "t265_enabled (monitor_cycle s) = t265_enabled s"
  "d4xx_enabled (monitor_cycle s) = d4xx_enabled s"
  by (simp_all add: monitor_cycle_def Let_def split: option.splits sum.splits)

lemma monitor_cycle_flag [simp]: "enabled_flag y (monitor_cycle s) = enabled_flag y s"
  by (simp add: enabled_flag_def split: sensor.splits)

lemma monitor_cycle_heap:
  "\<exists>ns. heap (monitor_cycle s) = heap s @ map new_thread ns
        \<and> (\<forall>f \<in> set ns. f = Mavproxy_create_connection \<or> (\<exists>x. f = Run_sensor x \<and> enabled_flag x s))"
proof (cases "main_exn s")
  case (Some e)
  then show ?thesis by (intro exI [of _ "[]"]) (simp add: monitor_cycle_def)
next
  case None
  from monitored_cases [of s] show ?thesis
  proof
    assume "monitored s = Inl NameError"
    with None show ?thesis by (intro exI [of _ "[]"]) (simp add: monitor_cycle_def)
  next
    assume "\<exists>ts. monitored s = Inr ((thread1 s, Mavproxy_create_connection) # ts)
        \<and> (\<forall>(h, f) \<in> set ts. \<exists>x. f = Run_sensor x \<and> enabled_flag x s)"
    then obtain ts where ts: "monitored s = Inr ((thread1 s, Mavproxy_create_connection) # ts)"
      "\<forall>(h, f) \<in> set ts. \<exists>x. f = Run_sensor x \<and> enabled_flag x s" by blast
    from restart_dead_heap [of "(thread1 s, Mavproxy_create_connection) # ts" s]
    obtain ns where ns: "heap (restart_dead ((thread1 s, Mavproxy_create_connection) # ts) s) =
        heap s @ map new_thread ns"
      "set ns \<subseteq> snd ` set ((thread1 s, Mavproxy_create_connection) # ts)" by blast
    have "\<forall>f \<in> set ns. f = Mavproxy_create_connection \<or> (\<exists>x. f = Run_sensor x \<and> enabled_flag x s)"
      using ns(2) ts(2) by fastforce
    with ns(1) None ts(1) show ?thesis
      by (intro exI [of _ ns]) (simp add: monitor_cycle_def Let_def)
  qed
qed

subsection \<open>Single events\<close>

lemma step_length: "length (heap s) \<le> length (heap (step e s))"
proof (cases e)
  case MonitorCycle
  with monitor_cycle_heap [of s] show ?thesis by auto
qed simp_all

lemma step_target:
  "j < length (heap s) \<Longrightarrow> target (heap (step e s) ! j) = target (heap s ! j)"
proof (cases e)
  case MonitorCycle
  assume "j < length (heap s)"
  with MonitorCycle monitor_cycle_heap [of s] show ?thesis by (auto simp: nth_append)
qed simp_all

lemma step_dead:
  "j < length (heap s) \<Longrightarrow> \<not> pc_alive (pc (heap s ! j)) \<Longrightarrow> heap (step e s) ! j = heap s ! j"
proof (cases e)
  case MonitorCycle
  assume "j < length (heap s)"
  with MonitorCycle monitor_cycle_heap [of s] show ?thesis by (auto simp: nth_append)
qed (simp_all add: thread_step_dead)

lemma step_flag: "enabled_flag y (step e s) \<Longrightarrow> enabled_flag y s"
  by (cases e) (auto dest: thread_step_flag)

lemma step_new_target:
  assumes "length (heap s) \<le> j" and "j < length (heap (step e s))"
  shows "target (heap (step e s) ! j) = Mavproxy_create_connection
         \<or> (\<exists>x. target (heap (step e s) ! j) = Run_sensor x \<and> enabled_flag x s)"
proof (cases e)
  case MonitorCycle
  from monitor_cycle_heap [of s] obtain ns where ns:
    "heap (monitor_cycle s) = heap s @ map new_thread ns"
    "\<forall>f \<in> set ns. f = Mavproxy_create_connection \<or> (\<exists>x. f = Run_sensor x \<and> enabled_flag x s)"
    by blast
  have "j - length (heap s) < length ns" using assms MonitorCycle ns(1) by auto
  then have "ns ! (j - length (heap s)) \<in> set ns" by simp
  with ns assms MonitorCycle show ?thesis
    by (auto simp: nth_append new_thread_def)
next
  case (Advance i)
  with assms show ?thesis by simp
next
  case (Complete i r)
  with assms show ?thesis by simp
qed

subsection \<open>Runs\<close>

lemma run_append: "run (es @ es') s = run es' (run es s)"
  by (induction es arbitrary: s) auto

lemma run_length: "length (heap s) \<le> length (heap (run es s))"
proof (induction es arbitrary: s)
  case (Cons e es)
  from step_length [of s e] Cons [of "step e s"] show ?case by simp
qed simp

lemma run_target:
  "j < length (heap s) \<Longrightarrow> target (heap (run es s) ! j) = target (heap s ! j)"
proof (induction es arbitrary: s)
  case (Cons e es)
  from Cons.prems step_length [of s e] have "j < length (heap (step e s))" by simp
  from Cons.IH [OF this] step_target [OF Cons.prems] show ?case by simp
qed simp

lemma run_dead:
  "j < length (heap s) \<Longrightarrow> \<not> pc_alive (pc (heap s ! j)) \<Longrightarrow> heap (run es s) ! j = heap s ! j"
proof (induction es arbitrary: s)
  case (Cons e es)
  from Cons.prems step_length [of s e] have l: "j < length (heap (step e s))" by simp
  from step_dead [OF Cons.prems] have e: "heap (step e s) ! j = heap s ! j" .
  from Cons.IH [OF l] e Cons.prems(2) show ?case by simp
qed simp

lemma run_flag: "enabled_flag y (run es s) \<Longrightarrow> enabled_flag y s"
proof (induction es arbitrary: s)
  case (Cons e es)
  from Cons.prems have "enabled_flag y (run es (step e s))" by simp
  then have "enabled_flag y (step e s)" by (rule Cons.IH)
  then show ?case by (rule step_flag)
qed simp

lemma run_new_target:
  assumes "\<not> enabled_flag x s" and "length (heap s) \<le> j" and "j < length (heap (run es s))"
  shows "target (heap (run es s) ! j) \<noteq> Run_sensor x"
  using assms
proof (induction es arbitrary: s)
  case Nil
  then show ?case by simp
next
  case (Cons e es)
  have off: "\<not> enabled_flag x (step e s)" using Cons.prems(1) step_flag by blast
  show ?case
  proof (cases "length (heap (step e s)) \<le> j")
    case True
    from Cons.IH [OF off True] Cons.prems(3) show ?thesis by simp
  next
    case False
    then have l: "j < length (heap (step e s))" by simp
    from step_new_target [OF Cons.prems(2) l] Cons.prems(1)
    have "target (heap (step e s) ! j) \<noteq> Run_sensor x" by auto
    with run_target [OF l, of es] show ?thesis by simp
  qed
qed


section \<open>The enabled flags\<close>

lemma startup_flags:
  "t265_enabled (startup a) = (\<not> arg_sik_only a \<and> \<not> arg_disable_t265 a)"
  "d4xx_enabled (startup a) = (\<not> arg_sik_only a \<and> \<not> arg_disable_d4xx a)"
  by (simp_all add: startup_def handle_flags_def Let_def start_def)

text \<open>
  Claim C5. An enabled flag that is false stays false under every sequence of thread
  steps and monitoring passes, from any state. At startup a flag is true exactly when
  neither \<open>--sik-only\<close> nor its own disable option is given, so a flag switched off on
  the command line is false in every state the process reaches, like one a worker has
  switched off itself.
\<close>

theorem enabled_never_set_again:
  "(\<not> enabled_flag x s \<longrightarrow> \<not> enabled_flag x (run es s))
   \<and> t265_enabled (startup a) = (\<not> arg_sik_only a \<and> \<not> arg_disable_t265 a)
   \<and> d4xx_enabled (startup a) = (\<not> arg_sik_only a \<and> \<not> arg_disable_d4xx a)
   \<and> (arg_sik_only a \<or> arg_disable_t265 a \<longrightarrow> \<not> t265_enabled (run es (startup a)))
   \<and> (arg_sik_only a \<or> arg_disable_d4xx a \<longrightarrow> \<not> d4xx_enabled (run es (startup a)))"
proof -
  have mono: "\<not> enabled_flag y t \<Longrightarrow> \<not> enabled_flag y (run es t)" for y t
    using run_flag by blast
  have t: "\<not> t265_enabled (run es (startup a))" if "arg_sik_only a \<or> arg_disable_t265 a"
    using mono [of T265 "startup a"] that by (simp add: enabled_flag_def startup_flags)
  have d: "\<not> d4xx_enabled (run es (startup a))" if "arg_sik_only a \<or> arg_disable_d4xx a"
    using mono [of D4XX "startup a"] that by (simp add: enabled_flag_def startup_flags)
  show ?thesis using mono t d startup_flags by blast
qed

theorem enabled_never_set_again_witness:
  "\<not> enabled_flag T265 (run [Advance 2, Complete 2 (Exited 0 ''no camera'')] (startup no_flags))
   \<and> \<not> enabled_flag T265
        (run [MonitorCycle, Advance 2, Complete 2 (Exited 0 ''Intel T265''), MonitorCycle]
           (run [Advance 2, Complete 2 (Exited 0 ''no camera'')] (startup no_flags)))
   \<and> arg_disable_d4xx (no_flags\<lparr>arg_disable_d4xx := True\<rparr>)
   \<and> \<not> d4xx_enabled (run [MonitorCycle, Advance 2, MonitorCycle] (startup (no_flags\<lparr>arg_disable_d4xx := True\<rparr>)))"
proof -
  let ?s = "run [Advance 2, Complete 2 (Exited 0 ''no camera'')] (startup no_flags)"
  let ?a = "no_flags\<lparr>arg_disable_d4xx := True\<rparr>"
  have off: "\<not> enabled_flag T265 ?s" by code_simp
  have arg: "arg_disable_d4xx ?a" by simp
  note t = enabled_never_set_again [of T265 ?s
      "[MonitorCycle, Advance 2, Complete 2 (Exited 0 ''Intel T265''), MonitorCycle]"]
  note u = enabled_never_set_again [of T265 ?s "[MonitorCycle, Advance 2, MonitorCycle]" ?a]
  from t off have 1: "\<not> enabled_flag T265
        (run [MonitorCycle, Advance 2, Complete 2 (Exited 0 ''Intel T265''), MonitorCycle] ?s)"
    by blast
  from u arg have 2: "\<not> d4xx_enabled (run [MonitorCycle, Advance 2, MonitorCycle] (startup ?a))"
    by blast
  from off 1 arg 2 show ?thesis by blast
qed


section \<open>Supervisor: restarts\<close>

text \<open>
  Claim C1. The claim asks that a worker never has two live threads. Started without
  options, let the first telemetry-relay thread (handle 1) end because \<open>mavproxy.py\<close>
  exits with status 1. The next monitoring pass starts thread 4 for the relay, which
  launches \<open>mavproxy.py\<close> and keeps running. \<open>thread1\<close> still names the ended thread,
  so the pass after that starts thread 5 as well: two live threads, each inside its
  own \<open>mavproxy.py\<close>, for the one worker.
\<close>

theorem monitor_starts_relay_twice:
  "live_runs Mavproxy_create_connection
     (run [Advance 1, Complete 1 (Exited 1 ''''), MonitorCycle, Advance 4, MonitorCycle, Advance 5]
        (startup no_flags)) = [4, 5]
   \<and> map (\<lambda>i. pc (heap (run [Advance 1, Complete 1 (Exited 1 ''''), MonitorCycle, Advance 4,
                              MonitorCycle, Advance 5] (startup no_flags)) ! i)) [1, 4, 5] =
       [Returned, InCommand, InCommand]
   \<and> thread1 (run [Advance 1, Complete 1 (Exited 1 ''''), MonitorCycle, Advance 4, MonitorCycle, Advance 5]
        (startup no_flags)) = 1"
  by code_simp


section \<open>Supervisor: the handles in every reachable state\<close>

lemma is_alive_frame [simp]:
  "is_alive (s\<lparr>main_history := m\<rparr>) h = is_alive s h"
  "is_alive (s\<lparr>main_exn := e\<rparr>) h = is_alive s h"
  by (simp_all add: is_alive_def)

lemma thread_step_alive:
  assumes "is_alive (thread_step i inp s) h"
  shows "is_alive s h"
proof (rule ccontr)
  assume n: "\<not> is_alive s h"
  from assms have h: "h < length (heap s)" and a: "pc_alive (pc (heap (thread_step i inp s) ! h))"
    by (simp_all add: is_alive_def)
  from n h have "\<not> pc_alive (pc (heap s ! h))" by (simp add: is_alive_def)
  from thread_step_dead [OF this, of i inp] this a show False by simp
qed

lemma startup_state:
  "startup a =
     \<lparr>t265_enabled = (\<not> arg_sik_only a \<and> \<not> arg_disable_t265 a),
      d4xx_enabled = (\<not> arg_sik_only a \<and> \<not> arg_disable_d4xx a),
      heap = [new_thread Publish_logs, new_thread Mavproxy_create_connection]
             @ (if \<not> arg_sik_only a \<and> \<not> arg_disable_t265 a then [new_thread (Run_sensor T265)] else [])
             @ (if \<not> arg_sik_only a \<and> \<not> arg_disable_d4xx a then [new_thread (Run_sensor D4XX)] else []),
      log_thread = 0, thread1 = 1,
      thread2 = (if \<not> arg_sik_only a \<and> \<not> arg_disable_t265 a then Some 2 else None),
      thread3 = (if \<not> arg_sik_only a \<and> \<not> arg_disable_d4xx a
                 then Some (if \<not> arg_sik_only a \<and> \<not> arg_disable_t265 a then 3 else 2) else None),
      main_history = snd (handle_flags a) @
         [Eff (Print ''ONICS - Optical Navigation and Interference Control System is initializing...'')],
      main_exn = None\<rparr>"
  by (simp add: startup_def handle_flags_def Let_def start_def)

lemma startup_relay_only:
  assumes "i < length (heap (startup a))"
    and "target (heap (startup a) ! i) = Mavproxy_create_connection"
  shows "i = 1"
proof -
  consider "i = 0" | "i = 1" | "i = 2" | "i = 3" | "4 \<le> i" by linarith
  then show ?thesis
    using assms unfolding startup_state
    by cases (simp_all add: new_thread_def nth_append split: if_splits)
qed

lemma startup_fields:
  "main_exn (startup a) = None"
  "thread1 (startup a) = 1"
  "thread2 (startup a) = (if t265_enabled (startup a) then Some 2 else None)"
  "thread3 (startup a) =
     (if d4xx_enabled (startup a) then Some (if t265_enabled (startup a) then 3 else 2) else None)"
  "heap (startup a) =
     [new_thread Publish_logs, new_thread Mavproxy_create_connection]
     @ (if t265_enabled (startup a) then [new_thread (Run_sensor T265)] else [])
     @ (if d4xx_enabled (startup a) then [new_thread (Run_sensor D4XX)] else [])"
  by (simp_all add: startup_state)

lemma handles_ok_startup: "handles_ok (startup a)"
proof -
  let ?s = "startup a"
  have relay: "\<forall>i < length (heap ?s).
      target (heap ?s ! i) = Mavproxy_create_connection \<longrightarrow> i \<noteq> thread1 ?s \<longrightarrow>
      \<not> is_alive ?s (thread1 ?s)"
  proof (intro allI impI)
    fix i
    assume "i < length (heap ?s)" "target (heap ?s ! i) = Mavproxy_create_connection"
      "i \<noteq> thread1 ?s"
    with startup_relay_only [of i a] show "\<not> is_alive ?s (thread1 ?s)"
      by (simp add: startup_fields(2))
  qed
  have e: "main_exn ?s = None" by (rule startup_fields)
  have l: "thread1 ?s < length (heap ?s)"
    unfolding startup_fields by simp
  have t: "target (heap ?s ! thread1 ?s) = Mavproxy_create_connection"
    unfolding startup_fields by (simp add: new_thread_def)
  have f2: "t265_enabled ?s \<longrightarrow> thread2 ?s \<noteq> None"
    unfolding startup_fields(3) by simp
  have f3: "d4xx_enabled ?s \<longrightarrow> thread3 ?s \<noteq> None"
    unfolding startup_fields(4) by simp
  have h2: "\<forall>h. thread2 ?s = Some h \<longrightarrow> h < length (heap ?s)"
    unfolding startup_fields(3,5) by simp
  have h3: "\<forall>h. thread3 ?s = Some h \<longrightarrow> h < length (heap ?s)"
    unfolding startup_fields(4,5) by simp
  show ?thesis
    unfolding handles_ok_def
    by (intro conjI) (fact e l t f2 f3 h2 h3 relay)+
qed

lemma handles_ok_thread_step:
  assumes "handles_ok s"
  shows "handles_ok (thread_step i inp s)"
proof -
  have t: "t265_enabled (thread_step i inp s) \<Longrightarrow> t265_enabled s"
    using thread_step_flag [of T265 i inp s] by (simp add: enabled_flag_def)
  have d: "d4xx_enabled (thread_step i inp s) \<Longrightarrow> d4xx_enabled s"
    using thread_step_flag [of D4XX i inp s] by (simp add: enabled_flag_def)
  show ?thesis
    using assms t d thread_step_alive [of i inp s "thread1 s"]
    unfolding handles_ok_def by (simp (no_asm_simp)) blast
qed

lemma monitored_ok:
  assumes "handles_ok s"
  shows "\<exists>ts. monitored s = Inr ((thread1 s, Mavproxy_create_connection) # ts)
           \<and> (\<forall>(h, f) \<in> set ts. h < length (heap s) \<and> f \<noteq> Mavproxy_create_connection)"
  using assms by (auto simp: handles_ok_def monitored_def)

lemma monitor_cycle_ok:
  assumes "handles_ok s"
  shows "\<exists>ns. heap (monitor_cycle s) = heap s @ map new_thread ns
           \<and> main_exn (monitor_cycle s) = None
           \<and> (Mavproxy_create_connection \<in> set ns \<longrightarrow> \<not> is_alive s (thread1 s))
           \<and> (\<not> is_alive s (thread1 s) \<longrightarrow> (\<exists>ns'. ns = Mavproxy_create_connection # ns'))"
proof -
  from monitored_ok [OF assms] obtain ts where ts:
    "monitored s = Inr ((thread1 s, Mavproxy_create_connection) # ts)"
    "\<forall>(h, f) \<in> set ts. h < length (heap s) \<and> f \<noteq> Mavproxy_create_connection"
    by blast
  let ?all = "(thread1 s, Mavproxy_create_connection) # ts"
  let ?ns = "map snd (filter (\<lambda>(h, f). \<not> is_alive s h) ?all)"
  have valid: "\<forall>(h, f) \<in> set ?all. h < length (heap s)"
    using ts(2) assms by (auto simp: handles_ok_def)
  have none: "main_exn s = None" using assms by (simp add: handles_ok_def)
  have "heap (monitor_cycle s) = heap (restart_dead ?all s)"
    using ts(1) none by (simp add: monitor_cycle_def Let_def del: restart_dead.simps)
  also have "\<dots> = heap s @ map new_thread ?ns"
    by (rule restart_dead_valid [OF valid])
  finally have heap: "heap (monitor_cycle s) = heap s @ map new_thread ?ns" .
  have exn: "main_exn (monitor_cycle s) = None"
    using ts(1) none by (simp add: monitor_cycle_def Let_def del: restart_dead.simps)
  have only: "Mavproxy_create_connection \<in> set ?ns \<longrightarrow> \<not> is_alive s (thread1 s)"
    using ts(2) by auto
  have first: "\<not> is_alive s (thread1 s) \<longrightarrow> (\<exists>ns'. ?ns = Mavproxy_create_connection # ns')"
    by simp
  show ?thesis
    by (rule exI [of _ ?ns]) (intro conjI heap exn only first)
qed

lemma handles_ok_monitor_cycle:
  assumes "handles_ok s"
  shows "handles_ok (monitor_cycle s)"
proof -
  from monitor_cycle_ok [OF assms] obtain ns where ns:
    "heap (monitor_cycle s) = heap s @ map new_thread ns"
    "main_exn (monitor_cycle s) = None"
    "Mavproxy_create_connection \<in> set ns \<longrightarrow> \<not> is_alive s (thread1 s)"
    by blast
  have t1: "thread1 s < length (heap s)" using assms by (simp add: handles_ok_def)
  have alive: "is_alive (monitor_cycle s) (thread1 s) = is_alive s (thread1 s)"
    using t1 ns(1) by (simp add: is_alive_def nth_append)
  have relay: "\<not> is_alive s (thread1 s)"
    if i: "i < length (heap (monitor_cycle s))"
      "target (heap (monitor_cycle s) ! i) = Mavproxy_create_connection" "i \<noteq> thread1 s" for i
  proof (cases "i < length (heap s)")
    case True
    with i ns(1) assms show ?thesis by (simp add: handles_ok_def nth_append)
  next
    case False
    then have "i - length (heap s) < length ns" using i(1) ns(1) by simp
    then have "ns ! (i - length (heap s)) \<in> set ns" by simp
    moreover have "ns ! (i - length (heap s)) = Mavproxy_create_connection"
      using False i ns(1) by (simp add: nth_append new_thread_def)
    ultimately show ?thesis using ns(3) by simp
  qed
  have bound: "length (heap s) \<le> length (heap (monitor_cycle s))"
    using ns(1) by simp
  have t1': "target (heap (monitor_cycle s) ! thread1 s) = Mavproxy_create_connection"
    using assms t1 ns(1) by (simp add: handles_ok_def nth_append)
  have h2: "\<forall>h. thread2 s = Some h \<longrightarrow> h < length (heap (monitor_cycle s))"
    using assms bound by (auto simp: handles_ok_def)
  have h3: "\<forall>h. thread3 s = Some h \<longrightarrow> h < length (heap (monitor_cycle s))"
    using assms bound by (auto simp: handles_ok_def)
  have f2: "t265_enabled s \<longrightarrow> thread2 s \<noteq> None" and f3: "d4xx_enabled s \<longrightarrow> thread3 s \<noteq> None"
    using assms by (simp_all add: handles_ok_def)
  have rel: "\<forall>i < length (heap (monitor_cycle s)).
      target (heap (monitor_cycle s) ! i) = Mavproxy_create_connection \<longrightarrow> i \<noteq> thread1 s \<longrightarrow>
      \<not> is_alive (monitor_cycle s) (thread1 s)"
    using relay alive by blast
  show ?thesis
    unfolding handles_ok_def
    using ns(2) t1 bound t1' h2 h3 f2 f3 rel by simp
qed

lemma handles_ok_step: "handles_ok s \<Longrightarrow> handles_ok (step e s)"
  by (cases e) (simp_all add: handles_ok_thread_step handles_ok_monitor_cycle)

lemma handles_ok_run: "handles_ok s \<Longrightarrow> handles_ok (run es s)"
  by (induction es arbitrary: s) (simp_all add: handles_ok_step)


text \<open>
  Claim C3. In every state the supervisor reaches, whatever the options, the thread
  steps and the outcomes of the commands (so after any number of failures of
  \<open>mavproxy.py\<close>): the main thread has not failed, the list the monitoring pass builds
  begins with the telemetry relay, which no flag can remove, and as soon as some thread
  of the relay has ended, the very next monitoring pass starts a new thread for it,
  alive from then on. The passes are one \<open>time.sleep(1)\<close> apart.
\<close>

theorem relay_always_restarted:
  "main_exn (run es (startup a)) = None
   \<and> (\<exists>ts. monitored (run es (startup a)) =
          Inr ((thread1 (run es (startup a)), Mavproxy_create_connection) # ts))
   \<and> ((\<exists>i < length (heap (run es (startup a))).
          target (heap (run es (startup a)) ! i) = Mavproxy_create_connection
          \<and> \<not> is_alive (run es (startup a)) i) \<longrightarrow>
        (\<exists>ns. heap (step MonitorCycle (run es (startup a))) =
           heap (run es (startup a)) @ new_thread Mavproxy_create_connection # ns)
        \<and> is_alive (step MonitorCycle (run es (startup a))) (length (heap (run es (startup a)))))"
proof -
  let ?s = "run es (startup a)"
  have ok: "handles_ok ?s" by (rule handles_ok_run [OF handles_ok_startup])
  then have exn: "main_exn ?s = None" by (simp add: handles_ok_def)
  from monitored_ok [OF ok]
  have mon: "\<exists>ts. monitored ?s = Inr ((thread1 ?s, Mavproxy_create_connection) # ts)" by blast
  have restart: "(\<exists>ns. heap (step MonitorCycle ?s) = heap ?s @ new_thread Mavproxy_create_connection # ns)
        \<and> is_alive (step MonitorCycle ?s) (length (heap ?s))"
    if dead: "\<exists>i < length (heap ?s). target (heap ?s ! i) = Mavproxy_create_connection \<and> \<not> is_alive ?s i"
  proof -
    from dead obtain i where i: "i < length (heap ?s)"
      "target (heap ?s ! i) = Mavproxy_create_connection" "\<not> is_alive ?s i" by blast
    have d1: "\<not> is_alive ?s (thread1 ?s)"
    proof (cases "i = thread1 ?s")
      case True
      with i(3) show ?thesis by simp
    next
      case False
      with ok i(1,2) show ?thesis unfolding handles_ok_def by blast
    qed
    from monitor_cycle_ok [OF ok] d1 obtain ns' where
      h: "heap (monitor_cycle ?s) = heap ?s @ map new_thread (Mavproxy_create_connection # ns')"
      by blast
    then have h': "heap (step MonitorCycle ?s) =
        heap ?s @ new_thread Mavproxy_create_connection # map new_thread ns'"
      by simp
    have "is_alive (step MonitorCycle ?s) (length (heap ?s))"
      unfolding is_alive_def h' by (simp add: new_thread_def pc_alive_def)
    with h' show ?thesis by blast
  qed
  from exn mon restart show ?thesis by blast
qed

theorem relay_always_restarted_witness:
  "(\<exists>i < length (heap (run [Advance 1, Complete 1 (Exited 1 '''')] (startup no_flags))).
      target (heap (run [Advance 1, Complete 1 (Exited 1 '''')] (startup no_flags)) ! i) =
        Mavproxy_create_connection
      \<and> \<not> is_alive (run [Advance 1, Complete 1 (Exited 1 '''')] (startup no_flags)) i)
   \<and> (\<exists>ns. heap (step MonitorCycle (run [Advance 1, Complete 1 (Exited 1 '''')] (startup no_flags))) =
         heap (run [Advance 1, Complete 1 (Exited 1 '''')] (startup no_flags))
         @ new_thread Mavproxy_create_connection # ns)
   \<and> is_alive (step MonitorCycle (run [Advance 1, Complete 1 (Exited 1 '''')] (startup no_flags)))
        (length (heap (run [Advance 1, Complete 1 (Exited 1 '''')] (startup no_flags))))"
proof -
  let ?s = "run [Advance 1, Complete 1 (Exited 1 '''')] (startup no_flags)"
  have "1 < length (heap ?s) \<and> target (heap ?s ! 1) = Mavproxy_create_connection
      \<and> \<not> is_alive ?s 1"
    by code_simp
  then have dead: "\<exists>i < length (heap ?s). target (heap ?s ! i) = Mavproxy_create_connection
      \<and> \<not> is_alive ?s i"
    by blast
  with relay_always_restarted [of "[Advance 1, Complete 1 (Exited 1 '''')]" no_flags]
  show ?thesis by blast
qed


section \<open>Threads that are not sensor workers\<close>

lemma mavproxy_acts:
  assumes "mavproxy_create_connection p inp = (p', acts)"
  shows "(\<forall>a \<in> set acts. relay_act a) \<and> (p' = Probing \<longrightarrow> p = Probing)"
  using assms
  by (auto simp: mavproxy_create_connection_def subprocess_run_def relay_act_def
      split: pc.splits option.splits proc_outcome.splits if_splits)

lemma thread_step_plain:
  assumes "\<forall>x. target (heap s ! j) \<noteq> Run_sensor x" and "j < length (heap s)"
    and "pc (heap s ! j) \<noteq> Probing" and "\<forall>a \<in> set (history (heap s ! j)). relay_act a"
  shows "pc (heap (thread_step i inp s) ! j) \<noteq> Probing
         \<and> (\<forall>a \<in> set (history (heap (thread_step i inp s) ! j)). relay_act a)"
proof (cases "j = i")
  case False
  with assms show ?thesis by (simp add: thread_step_other)
next
  case True
  show ?thesis
  proof (cases "target (heap s ! i)")
    case (Run_sensor x)
    with assms(1) True show ?thesis by simp
  next
    case Publish_logs
    with assms True show ?thesis by (simp add: thread_step_def Let_def)
  next
    case Mavproxy_create_connection
    obtain p' acts where m: "mavproxy_create_connection (pc (heap s ! i)) inp = (p', acts)"
      by (cases "mavproxy_create_connection (pc (heap s ! i)) inp") auto
    from mavproxy_acts [OF m] assms True Mavproxy_create_connection m show ?thesis
      by (auto simp: thread_step_def Let_def)
  qed
qed

lemma plain_threads_thread_step:
  assumes "plain_threads s"
  shows "plain_threads (thread_step i inp s)"
  unfolding plain_threads_def
proof (intro allI impI)
  fix j
  assume j: "j < length (heap (thread_step i inp s))"
    and t: "\<forall>x. target (heap (thread_step i inp s) ! j) \<noteq> Run_sensor x"
  from j have j': "j < length (heap s)" by simp
  from t have t': "\<forall>x. target (heap s ! j) \<noteq> Run_sensor x" by simp
  from assms j' t' have "pc (heap s ! j) \<noteq> Probing" "\<forall>a \<in> set (history (heap s ! j)). relay_act a"
    unfolding plain_threads_def by blast+
  from thread_step_plain [OF t' j' this]
  show "pc (heap (thread_step i inp s) ! j) \<noteq> Probing
         \<and> (\<forall>a \<in> set (history (heap (thread_step i inp s) ! j)). relay_act a)" .
qed

lemma plain_threads_monitor_cycle:
  assumes "plain_threads s"
  shows "plain_threads (monitor_cycle s)"
proof -
  from monitor_cycle_heap [of s] obtain ns where
    ns: "heap (monitor_cycle s) = heap s @ map new_thread ns" by blast
  show ?thesis
    unfolding plain_threads_def
  proof (intro allI impI)
    fix j
    assume j: "j < length (heap (monitor_cycle s))"
      and t: "\<forall>x. target (heap (monitor_cycle s) ! j) \<noteq> Run_sensor x"
    show "pc (heap (monitor_cycle s) ! j) \<noteq> Probing
         \<and> (\<forall>a \<in> set (history (heap (monitor_cycle s) ! j)). relay_act a)"
    proof (cases "j < length (heap s)")
      case True
      with t ns have "\<forall>x. target (heap s ! j) \<noteq> Run_sensor x" by (simp add: nth_append)
      with assms True have "pc (heap s ! j) \<noteq> Probing \<and> (\<forall>a \<in> set (history (heap s ! j)). relay_act a)"
        unfolding plain_threads_def by blast
      with True ns show ?thesis by (simp add: nth_append)
    next
      case False
      with j ns show ?thesis by (simp add: nth_append new_thread_def)
    qed
  qed
qed

lemma plain_threads_run: "plain_threads s \<Longrightarrow> plain_threads (run es s)"
proof (induction es arbitrary: s)
  case (Cons e es)
  have "plain_threads (step e s)"
    using Cons.prems by (cases e) (simp_all add: plain_threads_thread_step plain_threads_monitor_cycle)
  then show ?case using Cons.IH by simp
qed simp

lemma plain_threads_startup: "plain_threads (startup a)"
proof -
  have "history (heap (startup a) ! j) = [] \<and> pc (heap (startup a) ! j) = Entry"
    if "j < length (heap (startup a))" for j
  proof -
    have "\<forall>t \<in> set (heap (startup a)). history t = [] \<and> pc t = Entry"
      unfolding startup_fields by (auto simp: new_thread_def)
    with that show ?thesis using nth_mem by blast
  qed
  then show ?thesis unfolding plain_threads_def by simp
qed

lemma relay_act_exec:
  "relay_act (Eff (Exec argv)) \<Longrightarrow> argv = mavproxy_argv"
  by (auto simp: relay_act_def)

lemma other_commands:
  "rs_enumerate_devices \<noteq> mavproxy_argv" "script_argv x \<noteq> mavproxy_argv"
  by (simp_all add: rs_enumerate_devices_def mavproxy_argv_def script_argv_def split: sensor.splits)


lemma no_sensor_threads:
  assumes "\<not> t265_enabled (startup a)" and "\<not> d4xx_enabled (startup a)"
    and "j < length (heap (run es (startup a)))"
  shows "target (heap (run es (startup a)) ! j) = Publish_logs
         \<or> target (heap (run es (startup a)) ! j) = Mavproxy_create_connection"
proof (cases "j < length (heap (startup a))")
  case True
  have h: "heap (startup a) = [new_thread Publish_logs, new_thread Mavproxy_create_connection]"
    using assms(1,2) by (simp add: startup_fields)
  from True h have "j = 0 \<or> j = 1" by auto
  then have "target (heap (startup a) ! j) = Publish_logs
      \<or> target (heap (startup a) ! j) = Mavproxy_create_connection"
    unfolding h by (auto simp: new_thread_def)
  with run_target [OF True, of es] show ?thesis by simp
next
  case False
  then have le: "length (heap (startup a)) \<le> j" by simp
  have off: "\<not> enabled_flag x (startup a)" for x
    using assms(1,2) by (cases x) (simp_all add: enabled_flag_def)
  have "target (heap (run es (startup a)) ! j) \<noteq> Run_sensor x" for x
    by (rule run_new_target [OF off le assms(3)])
  then show ?thesis by (cases "target (heap (run es (startup a)) ! j)") auto
qed

text \<open>
  Claim C6. With \<open>--sik-only\<close> (and without \<open>--enumerate\<close>, which would run the report
  instead) the main block supervises; both flags are false before the first thread is
  started; the threads it starts are the log follower and the telemetry relay; and in
  every state reached afterwards both flags are still false, every thread is the log
  follower or a thread of the relay, none of them is inside a probe, and no history
  holds a call of \<open>rs-enumerate-devices\<close> or of either sensor script.
\<close>

theorem sik_only_relay_alone:
  assumes "arg_sik_only a" and "\<not> arg_enumerate a"
  shows "main a r = Supervise (startup a)
   \<and> \<not> t265_enabled (startup a) \<and> \<not> d4xx_enabled (startup a)
   \<and> map target (heap (startup a)) = [Publish_logs, Mavproxy_create_connection]
   \<and> \<not> t265_enabled (run es (startup a)) \<and> \<not> d4xx_enabled (run es (startup a))
   \<and> (\<forall>t \<in> set (heap (run es (startup a))).
        (target t = Publish_logs \<or> target t = Mavproxy_create_connection)
        \<and> pc t \<noteq> Probing
        \<and> Eff (Exec rs_enumerate_devices) \<notin> set (history t)
        \<and> Eff (Exec (script_argv T265)) \<notin> set (history t)
        \<and> Eff (Exec (script_argv D4XX)) \<notin> set (history t))"
proof -
  let ?init = "startup a" and ?s = "run es (startup a)"
  have m: "main a r = Supervise ?init" using assms(2) by (simp add: main_def)
  have f0: "\<not> t265_enabled ?init" "\<not> d4xx_enabled ?init"
    using assms(1) by (simp_all add: startup_flags)
  have h0: "map target (heap ?init) = [Publish_logs, Mavproxy_create_connection]"
    using f0 by (simp add: startup_fields new_thread_def)
  have ft: "\<not> t265_enabled ?s"
    using run_flag [of T265 es ?init] f0 by (auto simp: enabled_flag_def)
  have fd: "\<not> d4xx_enabled ?s"
    using run_flag [of D4XX es ?init] f0 by (auto simp: enabled_flag_def)
  have plain: "plain_threads ?s"
    by (rule plain_threads_run [OF plain_threads_startup])
  have each: "(target t = Publish_logs \<or> target t = Mavproxy_create_connection)
        \<and> pc t \<noteq> Probing
        \<and> Eff (Exec rs_enumerate_devices) \<notin> set (history t)
        \<and> Eff (Exec (script_argv T265)) \<notin> set (history t)
        \<and> Eff (Exec (script_argv D4XX)) \<notin> set (history t)"
    if "t \<in> set (heap ?s)" for t
  proof -
    from that obtain j where j: "j < length (heap ?s)" "t = heap ?s ! j"
      by (auto simp: in_set_conv_nth)
    from no_sensor_threads [OF f0 j(1)] j(2)
    have tg: "target t = Publish_logs \<or> target t = Mavproxy_create_connection" by simp
    then have ns: "\<forall>x. target (heap ?s ! j) \<noteq> Run_sensor x" using j(2) by auto
    from plain j(1) ns have p: "pc t \<noteq> Probing" and acts: "\<forall>a \<in> set (history t). relay_act a"
      unfolding plain_threads_def j(2) by blast+
    have "Eff (Exec argv) \<notin> set (history t)" if "argv \<noteq> mavproxy_argv" for argv
      using acts that relay_act_exec by blast
    with tg p other_commands show ?thesis by blast
  qed
  from m f0 h0 ft fd each show ?thesis by blast
qed

theorem sik_only_relay_alone_witness:
  "arg_sik_only (no_flags\<lparr>arg_sik_only := True\<rparr>)
   \<and> \<not> arg_enumerate (no_flags\<lparr>arg_sik_only := True\<rparr>)
   \<and> main (no_flags\<lparr>arg_sik_only := True\<rparr>) CannotInvoke =
       Supervise (startup (no_flags\<lparr>arg_sik_only := True\<rparr>))
   \<and> map target (heap (startup (no_flags\<lparr>arg_sik_only := True\<rparr>))) =
       [Publish_logs, Mavproxy_create_connection]
   \<and> \<not> t265_enabled (run [Advance 1, Complete 1 (Exited 1 []), MonitorCycle, Advance 2,
                            Complete 2 CannotInvoke, MonitorCycle]
                       (startup (no_flags\<lparr>arg_sik_only := True\<rparr>)))
   \<and> 3 < length (heap (run [Advance 1, Complete 1 (Exited 1 []), MonitorCycle, Advance 2,
                            Complete 2 CannotInvoke, MonitorCycle]
                       (startup (no_flags\<lparr>arg_sik_only := True\<rparr>))))
   \<and> Eff (Exec rs_enumerate_devices) \<notin>
       set (history (heap (run [Advance 1, Complete 1 (Exited 1 []), MonitorCycle, Advance 2,
                                Complete 2 CannotInvoke, MonitorCycle]
                           (startup (no_flags\<lparr>arg_sik_only := True\<rparr>))) ! 3))
   \<and> pc (heap (run [Advance 1, Complete 1 (Exited 1 []), MonitorCycle, Advance 2,
                    Complete 2 CannotInvoke, MonitorCycle]
               (startup (no_flags\<lparr>arg_sik_only := True\<rparr>))) ! 3) \<noteq> Probing"
proof -
  let ?a = "no_flags\<lparr>arg_sik_only := True\<rparr>"
  let ?es = "[Advance 1, Complete 1 (Exited 1 []), MonitorCycle, Advance 2,
              Complete 2 CannotInvoke, MonitorCycle]"
  have a: "arg_sik_only ?a" "\<not> arg_enumerate ?a" by (simp_all add: no_flags_def)
  have l: "3 < length (heap (run ?es (startup ?a)))" by code_simp
  then have m: "heap (run ?es (startup ?a)) ! 3 \<in> set (heap (run ?es (startup ?a)))"
    by (rule nth_mem)
  from sik_only_relay_alone [OF a, of CannotInvoke ?es] a l m
  show ?thesis by blast
qed


section \<open>Sensor workers: the hardware-absent path\<close>

lemma assigns_append: "assigns (xs @ ys) = assigns xs @ assigns ys"
  by (induction xs rule: assigns.induct) auto

lemma assigns_effects: "assigns (map Eff effs) = []"
  by (induction effs) auto

lemma mavproxy_assigns:
  "mavproxy_create_connection p inp = (p', acts) \<Longrightarrow> assigns acts = []"
  by (auto simp: mavproxy_create_connection_def subprocess_run_def
      split: pc.splits option.splits proc_outcome.splits if_splits)

lemma run_sensor_assigns:
  "run_sensor x en p inp = (p', en', acts) \<Longrightarrow> pc_alive p' \<Longrightarrow> assigns acts = []"
  by (auto simp: run_sensor_def subprocess_run_def pc_alive_def assigns_append assigns_effects
      split: pc.splits option.splits proc_outcome.splits prod.splits sum.splits bool.splits
        exn.splits if_splits)

lemma thread_step_unassigned_at:
  assumes "j < length (heap s)"
    and "pc_alive (pc (heap s ! j)) \<longrightarrow> assigns (history (heap s ! j)) = []"
    and "pc_alive (pc (heap (thread_step i inp s) ! j))"
  shows "assigns (history (heap (thread_step i inp s) ! j)) = []"
proof (cases "pc_alive (pc (heap s ! j))")
  case False
  from thread_step_dead [OF False, of i inp] False assms(3) show ?thesis by simp
next
  case True
  with assms(2) have old: "assigns (history (heap s ! j)) = []" by simp
  show ?thesis
  proof (cases "j = i")
    case False
    with old show ?thesis by (simp add: thread_step_other)
  next
    case same: True
    show ?thesis
    proof (cases "target (heap s ! i)")
      case Publish_logs
      with old same assms(1) show ?thesis by (simp add: thread_step_def Let_def)
    next
      case Mavproxy_create_connection
      obtain p' acts where m: "mavproxy_create_connection (pc (heap s ! i)) inp = (p', acts)"
        by (cases "mavproxy_create_connection (pc (heap s ! i)) inp") auto
      from mavproxy_assigns [OF m] old same assms(1) Mavproxy_create_connection m show ?thesis
        by (simp add: thread_step_def Let_def assigns_append)
    next
      case (Run_sensor x)
      obtain p' en' acts where
        m: "run_sensor x (enabled_flag x s) (pc (heap s ! i)) inp = (p', en', acts)"
        by (cases "run_sensor x (enabled_flag x s) (pc (heap s ! i)) inp") auto
      have st: "heap (thread_step i inp s) ! i =
          (heap s ! i)\<lparr>pc := p', history := history (heap s ! i) @ acts\<rparr>"
        using same assms(1) Run_sensor m by (simp add: thread_step_def Let_def)
      with assms(3) same have "pc_alive p'" by simp
      from run_sensor_assigns [OF m this] old same st show ?thesis
        by (simp add: assigns_append)
    qed
  qed
qed

lemma unassigned_thread_step:
  assumes "unassigned s"
  shows "unassigned (thread_step i inp s)"
  unfolding unassigned_def
proof (intro allI impI)
  fix j
  assume j: "j < length (heap (thread_step i inp s))"
    and a: "pc_alive (pc (heap (thread_step i inp s) ! j))"
  from j have j': "j < length (heap s)" by simp
  from assms j' have "pc_alive (pc (heap s ! j)) \<longrightarrow> assigns (history (heap s ! j)) = []"
    unfolding unassigned_def by blast
  from thread_step_unassigned_at [OF j' this a]
  show "assigns (history (heap (thread_step i inp s) ! j)) = []" .
qed

lemma unassigned_monitor_cycle:
  assumes "unassigned s"
  shows "unassigned (monitor_cycle s)"
proof -
  from monitor_cycle_heap [of s] obtain ns where
    ns: "heap (monitor_cycle s) = heap s @ map new_thread ns" by blast
  show ?thesis
    unfolding unassigned_def
  proof (intro allI impI)
    fix j
    assume j: "j < length (heap (monitor_cycle s))"
      and a: "pc_alive (pc (heap (monitor_cycle s) ! j))"
    show "assigns (history (heap (monitor_cycle s) ! j)) = []"
    proof (cases "j < length (heap s)")
      case True
      with a ns have "pc_alive (pc (heap s ! j))" by (simp add: nth_append)
      with assms True have "assigns (history (heap s ! j)) = []"
        unfolding unassigned_def by blast
      with True ns show ?thesis by (simp add: nth_append)
    next
      case False
      with j ns show ?thesis by (simp add: nth_append new_thread_def)
    qed
  qed
qed

lemma unassigned_run: "unassigned s \<Longrightarrow> unassigned (run es s)"
proof (induction es arbitrary: s)
  case (Cons e es)
  have "unassigned (step e s)"
    using Cons.prems by (cases e) (simp_all add: unassigned_thread_step unassigned_monitor_cycle)
  then show ?case using Cons.IH by simp
qed simp

lemma unassigned_startup: "unassigned (startup a)"
proof -
  have "\<forall>t \<in> set (heap (startup a)). history t = []"
    unfolding startup_fields by (auto simp: new_thread_def)
  then have "history (heap (startup a) ! j) = []" if "j < length (heap (startup a))" for j
    using that nth_mem by blast
  then show ?thesis unfolding unassigned_def by simp
qed

lemma thread_step_absent:
  assumes "i < length (heap s)" and "target (heap s ! i) = Run_sensor x"
    and "pc (heap s ! i) = Probing"
    and "fst (is_device_connected (device_prefix x) r) = Inr False"
  shows "heap (thread_step i (Some r) s) ! i =
           (heap s ! i)\<lparr>pc := Returned,
             history := history (heap s ! i)
               @ map Eff (snd (is_device_connected (device_prefix x) r))
               @ [Eff (LogWarning (missing_warning x)), Assign (flag_name x) False]\<rparr>"
    and "\<not> enabled_flag x (thread_step i (Some r) s)"
proof -
  obtain effs where e: "is_device_connected (device_prefix x) r = (Inr False, effs)"
    using assms(4) by (cases "is_device_connected (device_prefix x) r") auto
  have m: "run_sensor x (enabled_flag x s) Probing (Some r) =
      (Returned, False,
       map Eff effs @ [Eff (LogWarning (missing_warning x)), Assign (flag_name x) False])"
    by (simp add: run_sensor_def e)
  show "heap (thread_step i (Some r) s) ! i =
           (heap s ! i)\<lparr>pc := Returned,
             history := history (heap s ! i)
               @ map Eff (snd (is_device_connected (device_prefix x) r))
               @ [Eff (LogWarning (missing_warning x)), Assign (flag_name x) False]\<rparr>"
    using assms(1-3) m e by (simp add: thread_step_def Let_def)
  show "\<not> enabled_flag x (thread_step i (Some r) s)"
    using assms(1-3) m by (simp add: thread_step_def Let_def)
qed

lemma monitored_skips_disabled:
  assumes "\<not> enabled_flag x s" and "monitored s = Inr ts" and "(h, f) \<in> set ts"
  shows "f \<noteq> Run_sensor x"
  using assms
  by (cases x) (auto simp: monitored_def enabled_flag_def split: if_splits option.splits)


text \<open>
  The thread that sees the absence: in a reachable state, a sensor thread whose probe
  reports the hardware absent logs the worker's warning after the call of the
  enumeration tool, assigns \<open>False\<close> to the worker's flag and returns. From then on the
  thread stays as it is, the assignment is the only one it has made, the flag stays
  false, and the list a monitoring pass builds does not hold the worker.
\<close>

lemma sensor_absent_thread_stops:
  fixes a :: args and pre es :: "event list" and i :: nat and x :: sensor and r :: proc_outcome
  defines "s \<equiv> run pre (startup a)"
  defines "s' \<equiv> step (Complete i r) s"
  defines "s'' \<equiv> run es s'"
  assumes "i < length (heap s)"
    and "target (heap s ! i) = Run_sensor x"
    and "pc (heap s ! i) = Probing"
    and "fst (is_device_connected (device_prefix x) r) = Inr False"
  shows "pc (heap s' ! i) = Returned
     \<and> history (heap s' ! i) =
         history (heap s ! i)
         @ map Eff (snd (is_device_connected (device_prefix x) r))
         @ [Eff (LogWarning (missing_warning x)), Assign (flag_name x) False]
     \<and> \<not> enabled_flag x s'
     \<and> heap s'' ! i = heap s' ! i
     \<and> \<not> enabled_flag x s''
     \<and> assigns (history (heap s'' ! i)) = [(flag_name x, False)]
     \<and> (\<forall>ts. monitored s'' = Inr ts \<longrightarrow> (\<forall>(h, f) \<in> set ts. f \<noteq> Run_sensor x))"
proof -
  have st: "s' = thread_step i (Some r) s" by (simp add: s'_def)
  note t = thread_step_absent [OF assms(4-7)]
  have th: "heap s' ! i =
      (heap s ! i)\<lparr>pc := Returned,
         history := history (heap s ! i)
           @ map Eff (snd (is_device_connected (device_prefix x) r))
           @ [Eff (LogWarning (missing_warning x)), Assign (flag_name x) False]\<rparr>"
    unfolding st by (rule t(1))
  have off: "\<not> enabled_flag x s'" unfolding st by (rule t(2))
  have c1: "pc (heap s' ! i) = Returned" by (simp add: th)
  have c2: "history (heap s' ! i) =
         history (heap s ! i)
         @ map Eff (snd (is_device_connected (device_prefix x) r))
         @ [Eff (LogWarning (missing_warning x)), Assign (flag_name x) False]"
    by (simp add: th)
  have len: "i < length (heap s')" using assms(4) by (simp add: st)
  have dead: "\<not> pc_alive (pc (heap s' ! i))" by (simp add: c1 pc_alive_def)
  have c4: "heap s'' ! i = heap s' ! i"
    unfolding s''_def by (rule run_dead [OF len dead])
  have c5: "\<not> enabled_flag x s''"
    unfolding s''_def using off run_flag by blast
  have "unassigned s"
    unfolding s_def by (rule unassigned_run [OF unassigned_startup])
  with assms(4,6) have "assigns (history (heap s ! i)) = []"
    unfolding unassigned_def by (simp add: pc_alive_def)
  then have c6: "assigns (history (heap s'' ! i)) = [(flag_name x, False)]"
    by (simp add: c4 c2 assigns_append assigns_effects)
  have c8: "\<forall>ts. monitored s'' = Inr ts \<longrightarrow> (\<forall>(h, f) \<in> set ts. f \<noteq> Run_sensor x)"
    using monitored_skips_disabled [OF c5] by blast
  from c1 c2 off c4 c5 c6 c8 show ?thesis by blast
qed

text \<open>
  Claim C4. The claim asks that a worker whose probe reports the hardware absent never
  launches its command again and sets its flag once. Started without options, let the
  first T265 thread (handle 2) end with the \<open>OSError\<close> of an enumeration tool that
  cannot be started; the flag is still true. \<open>thread2\<close> keeps naming the ended thread,
  so two monitoring passes start threads 4 and 5 for the worker, and both enter their
  probe. The probe of thread 4 reports the hardware absent: thread 4 logs the warning,
  sets the flag to false and returns; thread 5 has done nothing yet. The probe of
  thread 5 then finds the device, and thread 5 launches the T265 script although the
  flag is false. Had the probe of thread 5 reported absence too, the flag would have
  been assigned \<open>False\<close> a second time.
\<close>

theorem sensor_launch_after_absence:
  "map (\<lambda>i. target (heap (run [Advance 2, Complete 2 CannotInvoke, MonitorCycle, MonitorCycle,
                                 Advance 4, Advance 5] (startup no_flags)) ! i)) [4, 5] =
     [Run_sensor T265, Run_sensor T265]
   \<and> map (\<lambda>i. pc (heap (run [Advance 2, Complete 2 CannotInvoke, MonitorCycle, MonitorCycle,
                               Advance 4, Advance 5] (startup no_flags)) ! i)) [2, 4, 5] =
     [Raised OSError, Probing, Probing]
   \<and> t265_enabled (run [Advance 2, Complete 2 CannotInvoke, MonitorCycle, MonitorCycle,
                         Advance 4, Advance 5] (startup no_flags))
   \<and> fst (is_device_connected (device_prefix T265) (Exited 0 ''Intel RealSense D435'')) = Inr False
   \<and> \<not> t265_enabled (run [Advance 2, Complete 2 CannotInvoke, MonitorCycle, MonitorCycle,
                            Advance 4, Advance 5,
                            Complete 4 (Exited 0 ''Intel RealSense D435'')] (startup no_flags))
   \<and> history (heap (run [Advance 2, Complete 2 CannotInvoke, MonitorCycle, MonitorCycle,
                          Advance 4, Advance 5,
                          Complete 4 (Exited 0 ''Intel RealSense D435'')] (startup no_flags)) ! 4) =
       [Eff (Exec rs_enumerate_devices), Eff (LogWarning (missing_warning T265)),
        Assign ''t265_enabled'' False]
   \<and> history (heap (run [Advance 2, Complete 2 CannotInvoke, MonitorCycle, MonitorCycle,
                          Advance 4, Advance 5,
                          Complete 4 (Exited 0 ''Intel RealSense D435'')] (startup no_flags)) ! 5) = []
   \<and> history (heap (run [Advance 2, Complete 2 CannotInvoke, MonitorCycle, MonitorCycle,
                          Advance 4, Advance 5,
                          Complete 4 (Exited 0 ''Intel RealSense D435''),
                          Complete 5 (Exited 0 ''Intel RealSense T265'')] (startup no_flags)) ! 5) =
       [Eff (Exec rs_enumerate_devices), Eff (Exec (script_argv T265))]
   \<and> pc (heap (run [Advance 2, Complete 2 CannotInvoke, MonitorCycle, MonitorCycle,
                     Advance 4, Advance 5,
                     Complete 4 (Exited 0 ''Intel RealSense D435''),
                     Complete 5 (Exited 0 ''Intel RealSense T265'')] (startup no_flags)) ! 5) =
       InCommand
   \<and> \<not> t265_enabled (run [Advance 2, Complete 2 CannotInvoke, MonitorCycle, MonitorCycle,
                            Advance 4, Advance 5,
                            Complete 4 (Exited 0 ''Intel RealSense D435''),
                            Complete 5 (Exited 0 ''Intel RealSense T265'')] (startup no_flags))
   \<and> map (\<lambda>i. assigns (history (heap (run [Advance 2, Complete 2 CannotInvoke, MonitorCycle,
                            MonitorCycle, Advance 4, Advance 5,
                            Complete 4 (Exited 0 ''Intel RealSense D435''),
                            Complete 5 (Exited 0 ''Intel RealSense D435'')] (startup no_flags)) ! i)))
         [4, 5] =
       [[(''t265_enabled'', False)], [(''t265_enabled'', False)]]"
  by code_simp

end
